theory Spec2Isabelle
  imports Main
begin

section \<open>Text primitives\<close>

text \<open>
  A Python string is modelled as a \<^typ>\<open>string\<close>: the list of its code points, all of
  them below 256. On that range the characters are classified as Python classifies
  them: \<open>\d\<close> holds of the ten ASCII digits only; \<open>\w\<close>, the class behind \<open>\b\<close>, holds of
  the characters that \<open>str.isalnum\<close> accepts and of the underscore; \<open>str.isspace\<close> and
  the line boundaries of \<open>str.splitlines\<close> include the control character NEL (0x85),
  and the former the no-break space (0xA0). A Python \<open>set\<close> is a duplicate-free list
  that keeps the order of insertion; statements about it are made through \<^const>\<open>set\<close>.
  The order in which a \<open>for\<close> loop goes through a set is not the order of insertion: it
  is given by the run (\<open>set_order\<close> below).
\<close>

type_synonym address = string

definition between :: "nat \<Rightarrow> char \<Rightarrow> nat \<Rightarrow> bool" where
  "between lo c hi = (lo \<le> of_char c \<and> of_char c \<le> hi)"

definition is_digit :: "char \<Rightarrow> bool" where
  \<comment> \<open>\<open>\d\<close>\<close>
  "is_digit c = between 0x30 c 0x39"

definition is_word :: "char \<Rightarrow> bool" where
  \<comment> \<open>\<open>\w\<close>: digits, letters, the underscore; beyond ASCII the letters, the feminine and
      masculine ordinal indicators, the micro sign, the superscript digits and the
      vulgar fractions\<close>
  "is_word c =
     (between 0x30 c 0x39 \<or> between 0x41 c 0x5A \<or> c = CHR ''_'' \<or> between 0x61 c 0x7A \<or>
      of_char c \<in> {0xAA, 0xB2, 0xB3, 0xB5, 0xB9, 0xBA :: nat} \<or> between 0xBC c 0xBE \<or>
      between 0xC0 c 0xD6 \<or> between 0xD8 c 0xF6 \<or> between 0xF8 c 0xFF)"

definition is_space :: "char \<Rightarrow> bool" where
  \<comment> \<open>\<open>str.isspace\<close>: tab, LF, VT, FF, CR, FS, GS, RS, US, space, NEL, no-break space\<close>
  "is_space c = (between 0x09 c 0x0D \<or> between 0x1C c 0x20 \<or> of_char c \<in> {0x85, 0xA0 :: nat})"

definition is_linebreak :: "char \<Rightarrow> bool" where
  \<comment> \<open>the single-character line boundaries of \<open>str.splitlines\<close>:
      LF, VT, FF, CR, FS, GS, RS, NEL\<close>
  "is_linebreak c = (between 0x0A c 0x0D \<or> between 0x1C c 0x1E \<or> of_char c = (0x85 :: nat))"

definition strip_chars :: "(char \<Rightarrow> bool) \<Rightarrow> string \<Rightarrow> string" where
  "strip_chars P s = rev (dropWhile P (rev (dropWhile P s)))"

definition strip :: "string \<Rightarrow> string" where
  \<comment> \<open>\<open>s.strip()\<close>\<close>
  "strip s = strip_chars is_space s"

fun split_from :: "string \<Rightarrow> string \<Rightarrow> string list" where
  "split_from cur [] = (if cur = [] then [] else [cur])"
| "split_from cur (c # s) =
     (if is_space c then (if cur = [] then split_from [] s else cur # split_from [] s)
      else split_from (cur @ [c]) s)"

definition split :: "string \<Rightarrow> string list" where
  \<comment> \<open>\<open>s.split()\<close>: the maximal runs of characters that are not white space\<close>
  "split s = split_from [] s"

fun splitlines_from :: "string \<Rightarrow> string \<Rightarrow> string list" where
  "splitlines_from cur [] = (if cur = [] then [] else [cur])"
| "splitlines_from cur (c # s) =
     (if c = CHR 0x0D then
        (case s of
           [] \<Rightarrow> [cur]
         | d # s' \<Rightarrow> if d = CHR 0x0A then cur # splitlines_from [] s'
                    else cur # splitlines_from [] (d # s'))
      else if is_linebreak c then cur # splitlines_from [] s
      else splitlines_from (cur @ [c]) s)"

definition splitlines :: "string \<Rightarrow> string list" where
  \<comment> \<open>\<open>s.splitlines()\<close>; CR LF is one boundary, no empty last line\<close>
  "splitlines s = splitlines_from [] s"

definition startswith :: "string \<Rightarrow> string \<Rightarrow> bool" where
  "startswith s p = (take (length p) s = p)"

fun contains :: "string \<Rightarrow> string \<Rightarrow> bool" where
  \<comment> \<open>\<open>needle in hay\<close>\<close>
  "contains needle [] = (needle = [])"
| "contains needle (c # s) = (startswith (c # s) needle \<or> contains needle s)"

definition lower_char :: "char \<Rightarrow> char" where
  \<comment> \<open>the capital letters are A to Z and, beyond ASCII, 0xC0 to 0xDE without 0xD7\<close>
  "lower_char c =
     (if between 0x41 c 0x5A \<or> between 0xC0 c 0xD6 \<or> between 0xD8 c 0xDE
      then char_of (of_char c + (32 :: nat)) else c)"

definition lower :: "string \<Rightarrow> string" where
  \<comment> \<open>\<open>s.lower()\<close>\<close>
  "lower s = map lower_char s"

fun set_add :: "'a \<Rightarrow> 'a list \<Rightarrow> 'a list" where
  \<comment> \<open>\<open>s.add(x)\<close>\<close>
  "set_add x s = (if x \<in> set s then s else s @ [x])"

definition set_update :: "'a list \<Rightarrow> 'a list \<Rightarrow> 'a list" where
  \<comment> \<open>\<open>s.update(xs)\<close>\<close>
  "set_update s xs = foldl (\<lambda>acc x. set_add x acc) s xs"

definition set_diff :: "'a list \<Rightarrow> 'a list \<Rightarrow> 'a list" where
  \<comment> \<open>\<open>xs - ys\<close>\<close>
  "set_diff xs ys = filter (\<lambda>x. x \<notin> set ys) xs"

section \<open>Address extractor\<close>

text \<open>
  \<^verbatim>\<open>re.findall(r'\b(?:\d{1,3}\.){3}\d{1,3}\b', output)\<close>.
  A matcher state is the pair of the text matched so far and the text that remains. Each
  piece of the pattern maps a state to the list of states it can reach, in the order in
  which the backtracking matcher tries them (the greedy \<open>{1,3}\<close> tries three digits, then
  two, then one). The match at a position is the first state that gets through the whole
  pattern.
\<close>

type_synonym rx_state = "string \<times> string"

definition word_boundary :: "char option \<Rightarrow> string \<Rightarrow> bool" where
  \<comment> \<open>\<open>\b\<close> between the character before the position (if any) and the text after it\<close>
  "word_boundary prev rest =
     ((case prev of None \<Rightarrow> False | Some c \<Rightarrow> is_word c) \<noteq>
      (case rest of [] \<Rightarrow> False | c # _ \<Rightarrow> is_word c))"

definition rx_boundary :: "char option \<Rightarrow> rx_state \<Rightarrow> rx_state list" where
  "rx_boundary prev = (\<lambda>(m, r).
     if word_boundary (if m = [] then prev else Some (last m)) r then [(m, r)] else [])"

definition rx_digits :: "rx_state \<Rightarrow> rx_state list" where
  \<comment> \<open>\<open>\d{1,3}\<close>\<close>
  "rx_digits = (\<lambda>(m, r).
     [(m @ take k r, drop k r). k \<leftarrow> [3, 2, 1], k \<le> length r \<and> list_all is_digit (take k r)])"

definition rx_dot :: "rx_state \<Rightarrow> rx_state list" where
  \<comment> \<open>\<open>\.\<close>\<close>
  "rx_dot = (\<lambda>(m, r). case r of [] \<Rightarrow> [] | c # r' \<Rightarrow> if c = CHR ''.'' then [(m @ [c], r')] else [])"

definition rx_then :: "rx_state list \<Rightarrow> (rx_state \<Rightarrow> rx_state list) \<Rightarrow> rx_state list" where
  "rx_then xs f = concat (map f xs)"

definition rx_group :: "rx_state \<Rightarrow> rx_state list" where
  \<comment> \<open>\<open>(?:\d{1,3}\.)\<close>\<close>
  "rx_group x = rx_then (rx_digits x) rx_dot"

definition ip_pattern :: "char option \<Rightarrow> string \<Rightarrow> rx_state list" where
  "ip_pattern prev s =
     rx_then (rx_then (rx_then (rx_then (rx_then (rx_boundary prev ([], s))
       rx_group) rx_group) rx_group) rx_digits) (rx_boundary prev)"

fun findall_from :: "nat \<Rightarrow> char option \<Rightarrow> string \<Rightarrow> string list" where
  \<comment> \<open>the scan of \<open>findall\<close>: \<open>skip\<close> counts the characters still inside the last match,
      where no new match may start; \<open>prev\<close> is the character before the position\<close>
  "findall_from skip prev [] = []"
| "findall_from (Suc k) prev (c # s) = findall_from k (Some c) s"
| "findall_from 0 prev (c # s) =
     (case ip_pattern prev (c # s) of
        [] \<Rightarrow> findall_from 0 (Some c) s
      | (m, r) # _ \<Rightarrow> m # findall_from (length m - 1) (Some c) s)"

definition findall :: "string \<Rightarrow> string list" where
  "findall s = findall_from 0 None s"

definition extract_all_ips :: "string \<Rightarrow> address list" where
  \<comment> \<open>\<open>set(re.findall(...))\<close>\<close>
  "extract_all_ips output = remdups (findall output)"

text \<open>The pattern in the words of the specification: four groups of one to three
  digits, separated by dots.\<close>

definition digit_group :: "string \<Rightarrow> bool" where
  "digit_group g = (1 \<le> length g \<and> length g \<le> 3 \<and> list_all is_digit g)"

definition ipv4_shape :: "string \<Rightarrow> bool" where
  "ipv4_shape s = (\<exists>a b c d. s = a @ ''.'' @ b @ ''.'' @ c @ ''.'' @ d \<and>
     digit_group a \<and> digit_group b \<and> digit_group c \<and> digit_group d)"

definition substring :: "string \<Rightarrow> string \<Rightarrow> bool" where
  "substring s t = (\<exists>before after. t = before @ s @ after)"

text \<open>
  The scan in the words of the documentation of \<open>re.findall\<close>: the matches are found
  from left to right and do not overlap. The pattern matches \<open>m\<close> at a position, with
  the character \<open>prev\<close> before the position and the text \<open>s\<close> from it on, when \<open>s\<close>
  starts with \<open>m\<close>, \<open>m\<close> has the four-group shape, and there is a word boundary before
  and after \<open>m\<close>. At each position the scan takes the match there and goes on after it,
  or, if there is none, moves one character on.
\<close>

definition match_at :: "char option \<Rightarrow> string \<Rightarrow> string \<Rightarrow> string \<Rightarrow> bool" where
  "match_at prev s m r =
     (s = m @ r \<and> ipv4_shape m \<and> word_boundary prev s \<and> word_boundary (Some (last m)) r)"

definition char_before :: "char option \<Rightarrow> string \<Rightarrow> char option" where
  \<comment> \<open>the character before the position that follows \<open>before\<close>\<close>
  "char_before prev before = (if before = [] then prev else Some (last before))"

inductive scan :: "char option \<Rightarrow> string \<Rightarrow> string list \<Rightarrow> bool" where
  scan_end: "scan prev [] []"
| scan_move: "(\<forall>m r. \<not> match_at prev (c # s) m r) \<Longrightarrow> scan (Some c) s ms \<Longrightarrow>
     scan prev (c # s) ms"
| scan_match: "match_at prev (c # s) m r \<Longrightarrow> scan (Some (last m)) r ms \<Longrightarrow>
     scan prev (c # s) (m # ms)"

section \<open>Tables\<close>

definition VENDOR_COMMANDS :: "(string \<times> (string \<times> string option) list) list" where
  "VENDOR_COMMANDS =
     [(''cisco_ios'', [(''cdp'', Some ''show cdp neighbors detail''),
                       (''lldp'', Some ''show lldp neighbors detail'')]),
      (''arista_eos'', [(''cdp'', None), (''lldp'', Some ''show lldp neighbors detail'')]),
      (''juniper'', [(''cdp'', None), (''lldp'', Some ''show lldp neighbors detail'')]),
      (''paloalto_panos'', [(''cdp'', None), (''lldp'', Some ''show lldp neighbors'')]),
      (''ubiquiti_edge'', [(''cdp'', None), (''lldp'', Some ''show lldp neighbors'')])]"

definition PLATFORM_MAPPING :: "(string \<times> string) list" where
  "PLATFORM_MAPPING =
     [(''cisco_ios'', ''cisco_ios''),
      (''cisco_xe'', ''cisco_ios''),
      (''cisco_xr'', ''cisco_ios''),
      (''arista_eos'', ''arista_eos''),
      (''juniper'', ''juniper''),
      (''juniper_junos'', ''juniper''),
      (''paloalto_panos'', ''paloalto_panos''),
      (''ubiquiti_edgerouter'', ''ubiquiti_edge''),
      (''ubiquiti_edgeswitch'', ''ubiquiti_edge'')]"

definition dict_get :: "(string \<times> string option) list \<Rightarrow> string \<Rightarrow> string option" where
  \<comment> \<open>\<open>commands.get(proto)\<close>: \<open>None\<close> for a missing key and for a key bound to \<open>None\<close>\<close>
  "dict_get d k = (case map_of d k of None \<Rightarrow> None | Some v \<Rightarrow> v)"

section \<open>Exceptions, log and Python values\<close>

datatype exn = Exception string

fun str :: "exn \<Rightarrow> string" where
  "str (Exception msg) = msg"

datatype log_level = DEBUG | INFO | WARNING | ERROR

type_synonym log_entry = "log_level \<times> string"

definition show_opt :: "string option \<Rightarrow> string" where
  \<comment> \<open>how an f-string prints a value that may be \<open>None\<close>\<close>
  "show_opt v = (case v of None \<Rightarrow> ''None'' | Some s \<Rightarrow> s)"

fun show_nat :: "nat \<Rightarrow> string" where
  "show_nat n =
     (if n < 10 then [char_of (48 + n)] else show_nat (n div 10) @ [char_of (48 + n mod 10)])"

declare show_nat.simps [simp del]

definition show_int :: "int \<Rightarrow> string" where
  "show_int i = (if i < 0 then ''-'' @ show_nat (nat (- i)) else show_nat (nat i))"

definition get_or :: "'a option \<Rightarrow> 'a \<Rightarrow> 'a" where
  \<comment> \<open>the value of a look-up in a table of the program, \<open>d\<close> when the key is absent\<close>
  "get_or v d = (case v of None \<Rightarrow> d | Some x \<Rightarrow> x)"

text \<open>
  The credentials are what \<open>yaml.safe_load\<close> returned: any value that a YAML file can
  hold, not only the dictionary that the program expects. The values are \<open>None\<close>,
  Booleans, integers, strings, lists and dictionaries (floating-point numbers, dates and
  byte strings are left out). A dictionary is the list of its items in insertion order,
  with distinct keys. The program reads these values with \<open>d.get(key, default)\<close>, which
  raises \<open>AttributeError\<close> when \<open>d\<close> is not a dictionary, tests them for truth, compares
  them with strings and prints them.
\<close>

datatype pyval =
    PNone
  | PBool bool
  | PInt int
  | PStr string
  | PList "pyval list"
  | PDict "(pyval \<times> pyval) list"

fun truthy :: "pyval \<Rightarrow> bool" where
  \<comment> \<open>\<open>bool(v)\<close>\<close>
  "truthy PNone = False"
| "truthy (PBool b) = b"
| "truthy (PInt i) = (i \<noteq> 0)"
| "truthy (PStr s) = (s \<noteq> [])"
| "truthy (PList xs) = (xs \<noteq> [])"
| "truthy (PDict items) = (items \<noteq> [])"

fun type_name :: "pyval \<Rightarrow> string" where
  "type_name PNone = ''NoneType''"
| "type_name (PBool b) = ''bool''"
| "type_name (PInt i) = ''int''"
| "type_name (PStr s) = ''str''"
| "type_name (PList xs) = ''list''"
| "type_name (PDict items) = ''dict''"

definition attribute_error :: "pyval \<Rightarrow> string \<Rightarrow> exn" where
  "attribute_error v name =
     Exception ([CHR 0x27] @ type_name v @ [CHR 0x27] @ '' object has no attribute '' @
                [CHR 0x27] @ name @ [CHR 0x27])"

fun py_get :: "pyval \<Rightarrow> string \<Rightarrow> pyval \<Rightarrow> exn + pyval" where
  \<comment> \<open>\<open>d.get(key, default)\<close>\<close>
  "py_get (PDict items) key fallback =
     Inr (case map_of items (PStr key) of None \<Rightarrow> fallback | Some v \<Rightarrow> v)"
| "py_get v key fallback = Inl (attribute_error v ''get'')"

text \<open>How \<open>str\<close> and \<open>repr\<close> print a value, for the f-strings of the log.\<close>

definition hex_digit :: "nat \<Rightarrow> char" where
  "hex_digit n = ''0123456789abcdef'' ! n"

definition is_printable :: "char \<Rightarrow> bool" where
  \<comment> \<open>\<open>str.isprintable\<close>\<close>
  "is_printable c =
     (between 0x20 c 0x7E \<or> between 0xA1 c 0xAC \<or> between 0xAE c 0xFF)"

definition escape_char :: "char \<Rightarrow> char \<Rightarrow> string" where
  "escape_char quote c =
     (if c = quote \<or> c = CHR 0x5C then [CHR 0x5C, c]
      else if c = CHR 0x09 then [CHR 0x5C, CHR ''t'']
      else if c = CHR 0x0A then [CHR 0x5C, CHR ''n'']
      else if c = CHR 0x0D then [CHR 0x5C, CHR ''r'']
      else if is_printable c then [c]
      else [CHR 0x5C, CHR ''x'', hex_digit (of_char c div 16), hex_digit (of_char c mod 16)])"

definition repr_str :: "string \<Rightarrow> string" where
  \<comment> \<open>\<open>repr(s)\<close>: in double quotes if the string has a single quote and no double quote\<close>
  "repr_str s =
     (let quote = (if CHR 0x27 \<in> set s \<and> CHR 0x22 \<notin> set s then CHR 0x22 else CHR 0x27)
      in [quote] @ concat (map (escape_char quote) s) @ [quote])"

fun join :: "string \<Rightarrow> string list \<Rightarrow> string" where
  \<comment> \<open>\<open>sep.join(xs)\<close>\<close>
  "join sep [] = []"
| "join sep [x] = x"
| "join sep (x # y # xs) = x @ sep @ join sep (y # xs)"

primrec py_repr :: "pyval \<Rightarrow> string" where
  "py_repr PNone = ''None''"
| "py_repr (PBool b) = (if b then ''True'' else ''False'')"
| "py_repr (PInt i) = show_int i"
| "py_repr (PStr s) = repr_str s"
| "py_repr (PList xs) = ''['' @ join '', '' (map py_repr xs) @ '']''"
| "py_repr (PDict items) =
     ''{'' @ join '', '' (map (\<lambda>kv. fst kv @ '': '' @ snd kv)
                              (map (map_prod py_repr py_repr) items)) @ ''}''"

definition py_str :: "pyval \<Rightarrow> string" where
  \<comment> \<open>\<open>str(v)\<close>, which is how an f-string prints \<open>v\<close>\<close>
  "py_str v = (case v of PStr s \<Rightarrow> s | _ \<Rightarrow> py_repr v)"

definition get_device_cred :: "address \<Rightarrow> pyval \<Rightarrow> exn + pyval" where
  \<comment> \<open>\<open>creds.get('devices', {}).get(ip, creds.get('default', {}))\<close>\<close>
  "get_device_cred ip creds =
     (case py_get creds ''devices'' (PDict []) of
        Inl e \<Rightarrow> Inl e
      | Inr devices \<Rightarrow>
          (case py_get creds ''default'' (PDict []) of
             Inl e \<Rightarrow> Inl e
           | Inr fallback \<Rightarrow> py_get devices ip fallback))"

section \<open>The outside world\<close>

text \<open>
  The SSH library is outside the program. Its two entry points take the keyword
  arguments that the program builds, a dictionary from names to values:
  \<open>autodetect\<close> stands for \<open>SSHDetect(**params).autodetect()\<close> and \<open>connect_handler\<close> for
  \<open>ConnectHandler(**params)\<close>; each either raises or returns. A session answers
  \<open>send_command\<close> from the command and the number of commands sent on it before, so
  that the same command may fail once and succeed later.

  The run also fixes the order in which a \<open>for\<close> loop goes through a set of strings
  (the hash of a string changes from one run of the interpreter to the next):
  \<open>set_order w xs\<close> ranks the elements of the set \<open>xs\<close>, and the loop takes them by
  increasing rank, elements of equal rank in the order of insertion. Every order of the
  elements is the order of some ranking.
\<close>

type_synonym kwargs = "(string \<times> pyval) list"

record session =
  enable :: "exn option"
  find_prompt :: "exn + string"
  send_command :: "nat \<Rightarrow> string \<Rightarrow> exn + string"

record world =
  autodetect :: "kwargs \<Rightarrow> exn + string option"
  connect_handler :: "kwargs \<Rightarrow> exn + session"
  set_order :: "string list \<Rightarrow> string \<Rightarrow> nat"

definition set_iter :: "world \<Rightarrow> string list \<Rightarrow> string list" where
  \<comment> \<open>the elements of a set in the order in which \<open>for x in xs\<close> takes them\<close>
  "set_iter w xs = sort_key (set_order w xs) xs"

section \<open>Connection and platform detection\<close>

definition device_params :: "address \<Rightarrow> pyval \<Rightarrow> string \<Rightarrow> exn + kwargs" where
  \<comment> \<open>the dictionary display of \<open>ssh_connect\<close>; its values are evaluated in order\<close>
  "device_params ip device_cred device_type =
     (case py_get device_cred ''username'' (PStr '''') of
        Inl e \<Rightarrow> Inl e
      | Inr username \<Rightarrow>
     (case py_get device_cred ''optional_args'' (PDict []) of
        Inl e \<Rightarrow> Inl e
      | Inr optional_args \<Rightarrow>
     (case py_get optional_args ''port'' (PInt 22) of
        Inl e \<Rightarrow> Inl e
      | Inr port \<Rightarrow>
     (case py_get device_cred ''secret'' (PStr '''') of
        Inl e \<Rightarrow> Inl e
      | Inr secret \<Rightarrow>
          Inr [(''device_type'', PStr device_type), (''host'', PStr ip),
               (''username'', username), (''port'', port), (''secret'', secret),
               (''timeout'', PInt 10), (''banner_timeout'', PInt 200),
               (''auth_timeout'', PInt 30)]))))"

definition open_session ::
  "world \<Rightarrow> address \<Rightarrow> string \<Rightarrow> kwargs \<Rightarrow> (exn + session option) \<times> log_entry list" where
  \<comment> \<open>the \<open>try\<close> block of \<open>ssh_connect\<close>\<close>
  "open_session w ip device_type params =
     (let failed = (\<lambda>e. (Inr None, [(ERROR, ''Failed to connect to '' @ ip @ '' ('' @
                             device_type @ ''): '' @ str e)]))
      in (case connect_handler w params of
            Inl e \<Rightarrow> failed e
          | Inr net_connect \<Rightarrow>
              (case map_of params ''secret'' of
                 None \<Rightarrow> failed (Exception ([CHR 0x27] @ ''secret'' @ [CHR 0x27]))
               | Some secret \<Rightarrow>
                   (case (if truthy secret then enable net_connect else None) of
                      Some e \<Rightarrow> failed e
                    | None \<Rightarrow>
                        (Inr (Some net_connect),
                         [(DEBUG, ''SSH connection established to '' @ ip @ '' ('' @
                                  device_type @ '')'')])))))"

definition ssh_connect ::
  "world \<Rightarrow> address \<Rightarrow> pyval \<Rightarrow> string \<Rightarrow> (exn + session option) \<times> log_entry list" where
  "ssh_connect w ip creds device_type =
     (case get_device_cred ip creds of
        Inl e \<Rightarrow> (Inl e, [])
      | Inr device_cred \<Rightarrow>
          (if \<not> truthy device_cred then
             (Inr None, [(ERROR, ''No credentials found for device '' @ ip)])
           else
             (case device_params ip device_cred device_type of
                Inl e \<Rightarrow> (Inl e, [])
              | Inr params \<Rightarrow>
                  (case py_get device_cred ''auth_method'' (PStr ''password'') of
                     Inl e \<Rightarrow> (Inl e, [])
                   | Inr auth_method \<Rightarrow>
                       (if auth_method = PStr ''password'' then
                          (case py_get device_cred ''password'' (PStr '''') of
                             Inl e \<Rightarrow> (Inl e, [])
                           | Inr password \<Rightarrow>
                               open_session w ip device_type
                                 (params @ [(''password'', password)]))
                        else if auth_method = PStr ''ssh_key'' then
                          (case py_get device_cred ''ssh_key_file'' PNone of
                             Inl e \<Rightarrow> (Inl e, [])
                           | Inr key_file \<Rightarrow>
                               open_session w ip device_type
                                 (params @ [(''use_keys'', PBool True),
                                            (''key_file'', key_file)]))
                        else
                          (Inr None,
                           [(ERROR, ''Unknown auth_method '' @ [CHR 0x27] @ py_str auth_method @
                                    [CHR 0x27] @ '' for '' @ ip)]))))))"

definition base_params :: "address \<Rightarrow> pyval \<Rightarrow> exn + kwargs" where
  \<comment> \<open>the dictionary display of \<open>detect_device_type\<close>\<close>
  "base_params ip device_cred =
     (case py_get device_cred ''username'' (PStr '''') of
        Inl e \<Rightarrow> Inl e
      | Inr username \<Rightarrow>
     (case py_get device_cred ''password'' (PStr '''') of
        Inl e \<Rightarrow> Inl e
      | Inr password \<Rightarrow>
     (case py_get device_cred ''optional_args'' (PDict []) of
        Inl e \<Rightarrow> Inl e
      | Inr optional_args \<Rightarrow>
     (case py_get optional_args ''port'' (PInt 22) of
        Inl e \<Rightarrow> Inl e
      | Inr port \<Rightarrow>
          Inr [(''device_type'', PStr ''autodetect''), (''host'', PStr ip),
               (''username'', username), (''password'', password), (''port'', port),
               (''timeout'', PInt 10)]))))"

definition detect_device_type ::
  "world \<Rightarrow> address \<Rightarrow> pyval \<Rightarrow> (exn + string option) \<times> log_entry list" where
  \<comment> \<open>the first component is the exception that leaves the function, or what it
      returns; the credentials are read before the \<open>try\<close> block\<close>
  "detect_device_type w ip creds =
     (case get_device_cred ip creds of
        Inl e \<Rightarrow> (Inl e, [])
      | Inr device_cred \<Rightarrow>
          (if \<not> truthy device_cred then
             (Inr None, [(ERROR, ''No credentials found for device '' @ ip)])
           else
             (case base_params ip device_cred of
                Inl e \<Rightarrow> (Inl e, [])
              | Inr params \<Rightarrow>
                  (case autodetect w params of
                     Inr best_match \<Rightarrow>
                       (Inr best_match,
                        [(INFO, ''Detected device type for '' @ ip @ '': '' @
                                show_opt best_match)])
                   | Inl e \<Rightarrow>
                       (Inr None,
                        [(ERROR, ''Failed to autodetect device type for '' @ ip @ '': '' @
                                 str e)])))))"

section \<open>Shared discovery state\<close>

record device_record =
  rec_ip :: address
  rec_device_type :: string
  rec_hostname :: string

record shared =
  visited_global :: "address list"
  results_global :: "device_record list"
  logged :: "log_entry list"

definition log_add :: "log_entry list \<Rightarrow> shared \<Rightarrow> shared" where
  "log_add entries s = s\<lparr>logged := logged s @ entries\<rparr>"

definition visit :: "address \<Rightarrow> shared \<Rightarrow> shared" where
  \<comment> \<open>\<open>with visited_lock: visited_global.add(ip)\<close>\<close>
  "visit ip s = s\<lparr>visited_global := set_add ip (visited_global s)\<rparr>"

definition record_device :: "device_record \<Rightarrow> shared \<Rightarrow> shared" where
  \<comment> \<open>\<open>with results_lock: results_global.append(...)\<close>\<close>
  "record_device r s = s\<lparr>results_global := results_global s @ [r]\<rparr>"

section \<open>Single-node discovery\<close>

definition parse_juniper_lldp_interfaces :: "string \<Rightarrow> string list" where
  \<comment> \<open>the set of the interface names, in the order of insertion\<close>
  "parse_juniper_lldp_interfaces output =
     foldl (\<lambda>interfaces line.
              if startswith line ''Local Interface'' \<or> strip line = [] then interfaces
              else (case split line of [] \<Rightarrow> interfaces | p # _ \<Rightarrow> set_add p interfaces))
       [] (splitlines (strip output))"

definition names_line :: "string \<Rightarrow> bool" where
  \<comment> \<open>a line of the summary that is neither the header nor blank\<close>
  "names_line line = (\<not> startswith line ''Local Interface'' \<and> strip line \<noteq> [])"

text \<open>
  The state of the protocol loop: the neighbour addresses found so far, the number of
  commands sent on the session, and the log entries written.
\<close>

type_synonym query_state = "address list \<times> nat \<times> log_entry list"

fun per_interface :: "session \<Rightarrow> address \<Rightarrow> string list \<Rightarrow> query_state \<Rightarrow> query_state" where
  \<comment> \<open>the body of \<open>for iface in interfaces\<close> on the interfaces in the order in which the
      loop takes them; the first command that raises leaves the loop through the handler
      of the enclosing \<open>try\<close>\<close>
  "per_interface net_connect ip [] st = st"
| "per_interface net_connect ip (iface # rest) (neighbor_ips, n, lg) =
     (case send_command net_connect n (''show lldp neighbors interface '' @ iface) of
        Inl inner_e \<Rightarrow>
          (neighbor_ips, Suc n,
           lg @ [(ERROR, ''Fallback LLDP per-interface also failed on '' @ ip @ '': '' @
                         str inner_e)])
      | Inr detail_output \<Rightarrow>
          per_interface net_connect ip rest
            (set_update neighbor_ips (extract_all_ips detail_output), Suc n, lg))"

definition juniper_lldp :: "world \<Rightarrow> session \<Rightarrow> address \<Rightarrow> query_state \<Rightarrow> query_state" where
  "juniper_lldp w net_connect ip = (\<lambda>(neighbor_ips, n, lg).
     case send_command net_connect n ''show lldp neighbors'' of
       Inr output \<Rightarrow> (set_update neighbor_ips (extract_all_ips output), Suc n, lg)
     | Inl e \<Rightarrow>
         if contains ''syntax error'' (lower (str e)) then
           (let lg = lg @ [(WARNING, ''Falling back to per-interface LLDP for '' @ ip)] in
            case send_command net_connect (Suc n) ''show lldp neighbors'' of
              Inl inner_e \<Rightarrow>
                (neighbor_ips, Suc (Suc n),
                 lg @ [(ERROR, ''Fallback LLDP per-interface also failed on '' @ ip @ '': '' @
                               str inner_e)])
            | Inr summary_output \<Rightarrow>
                per_interface net_connect ip
                  (set_iter w (parse_juniper_lldp_interfaces summary_output))
                  (neighbor_ips, Suc (Suc n), lg))
         else
           (neighbor_ips, Suc n, lg @ [(ERROR, ''LLDP detail failed on '' @ ip @ '': '' @ str e)]))"

definition run_proto ::
  "world \<Rightarrow> session \<Rightarrow> address \<Rightarrow> string \<Rightarrow> (string \<times> string option) list \<Rightarrow> query_state \<Rightarrow>
   string \<Rightarrow> query_state" where
  \<comment> \<open>one iteration of \<open>for proto in ['cdp', 'lldp']\<close>\<close>
  "run_proto w net_connect ip device_type commands st proto =
     (case dict_get commands proto of
        None \<Rightarrow> st
      | Some cmd \<Rightarrow>
          if cmd = [] then st
          else if device_type = ''juniper'' \<and> proto = ''lldp''
          then juniper_lldp w net_connect ip st
          else (case st of (neighbor_ips, n, lg) \<Rightarrow>
            (case send_command net_connect n cmd of
               Inr output \<Rightarrow> (set_update neighbor_ips (extract_all_ips output), Suc n, lg)
             | Inl e \<Rightarrow>
                 (neighbor_ips, Suc n,
                  lg @ [(ERROR, ''Failed to run '' @ [CHR 0x27] @ cmd @ [CHR 0x27] @ '' on '' @
                                ip @ '': '' @ str e)]))))"

definition query_neighbors ::
  "world \<Rightarrow> session \<Rightarrow> address \<Rightarrow> string \<Rightarrow> address list \<times> log_entry list" where
  \<comment> \<open>the protocol loop of \<open>discover_single\<close>, from \<open>commands = VENDOR_COMMANDS[device_type]\<close>;
      the caller has checked that \<open>device_type\<close> is a key of the table\<close>
  "query_neighbors w net_connect ip device_type =
     (let commands = get_or (map_of VENDOR_COMMANDS device_type) [];
          (neighbor_ips, n, lg) =
             foldl (run_proto w net_connect ip device_type commands) ([], 0, [])
               [''cdp'', ''lldp'']
      in (neighbor_ips, lg))"

definition hostname_of :: "string \<Rightarrow> string" where
  \<comment> \<open>\<open>prompt.strip("#>").strip()\<close>\<close>
  "hostname_of prompt = strip (strip_chars (\<lambda>c. c \<in> set ''#>'') prompt)"

type_synonym discovery = "exn + address list \<times> (address \<times> string) list"

definition discover_single ::
  "world \<Rightarrow> address \<Rightarrow> pyval \<Rightarrow> shared \<Rightarrow> discovery \<times> shared" where
  "discover_single w ip creds s =
     (if ip \<in> set (visited_global s) then
        (Inr ([], []), log_add [(DEBUG, ip @ '' already visited, skipping'')] s)
      else
        (let s = log_add [(INFO, ''Discovering '' @ ip)] s;
             (detected, lg) = detect_device_type w ip creds;
             s = log_add lg s
         in (case detected of
               Inl e \<Rightarrow> (Inl e, s)
             | Inr device_type \<Rightarrow>
                 (let skipped = (Inr ([], []),
                        visit ip (log_add [(WARNING, ''Skipping '' @ ip @
                          '': unsupported or undetected device type '' @ [CHR 0x27] @
                          show_opt device_type @ [CHR 0x27])] s))
                  in (case device_type of
                        None \<Rightarrow> skipped
                      | Some device_type \<Rightarrow>
                          (if device_type = [] \<or> map_of VENDOR_COMMANDS device_type = None
                           then skipped
                           else
                             (let (connected, lg) = ssh_connect w ip creds device_type;
                                  s = log_add lg s
                              in (case connected of
                                    Inl e \<Rightarrow> (Inl e, s)
                                  | Inr None \<Rightarrow> (Inr ([], []), visit ip s)
                                  | Inr (Some net_connect) \<Rightarrow>
                                      (case find_prompt net_connect of
                                         Inl e \<Rightarrow> (Inl e, s)
                                       | Inr prompt \<Rightarrow>
                                           (let hostname = hostname_of prompt;
                                                s = visit ip s;
                                                s = record_device
                                                      \<lparr>rec_ip = ip,
                                                       rec_device_type = device_type,
                                                       rec_hostname = hostname\<rparr> s;
                                                (neighbor_ips, lg) =
                                                   query_neighbors w net_connect ip device_type
                                            in (Inr (neighbor_ips, [(ip, device_type)]),
                                                log_add lg s)))))))))))"

definition grows :: "shared \<Rightarrow> shared \<Rightarrow> bool" where
  \<comment> \<open>the shared state only gains: addresses in the visited set, records at the end of
      the results, entries at the end of the log\<close>
  "grows s s' =
     (set (visited_global s) \<subseteq> set (visited_global s') \<and>
      (\<exists>new. results_global s' = results_global s @ new) \<and>
      (\<exists>lg. logged s' = logged s @ lg))"

section \<open>Workers as threads\<close>

text \<open>
  A worker thread runs \<open>discover_single\<close>. Between two of its accesses to the shared
  state other threads may run, so the function is cut at those accesses: the membership
  test under \<open>visited_lock\<close>; the detection, the connection and the prompt, up to the
  \<open>visited_global.add\<close> that follows them; the \<open>results_global.append\<close>; the protocol
  loop up to the return. The log entries of a piece are written with the piece.
\<close>

datatype worker =
    Queued address
  | Claimed address
  | Marked address string session string
  | Recorded address string session
  | Done discovery

fun worker_step :: "world \<Rightarrow> pyval \<Rightarrow> worker \<Rightarrow> shared \<Rightarrow> worker \<times> shared" where
  "worker_step w creds (Queued ip) s =
     (if ip \<in> set (visited_global s) then
        (Done (Inr ([], [])), log_add [(DEBUG, ip @ '' already visited, skipping'')] s)
      else (Claimed ip, log_add [(INFO, ''Discovering '' @ ip)] s))"
| "worker_step w creds (Claimed ip) s =
     (let (detected, lg) = detect_device_type w ip creds;
          s = log_add lg s
      in (case detected of
            Inl e \<Rightarrow> (Done (Inl e), s)
          | Inr device_type \<Rightarrow>
              (let skipped = (Done (Inr ([], [])),
                     visit ip (log_add [(WARNING, ''Skipping '' @ ip @
                       '': unsupported or undetected device type '' @ [CHR 0x27] @
                       show_opt device_type @ [CHR 0x27])] s))
               in (case device_type of
                     None \<Rightarrow> skipped
                   | Some device_type \<Rightarrow>
                       (if device_type = [] \<or> map_of VENDOR_COMMANDS device_type = None
                        then skipped
                        else
                          (let (connected, lg) = ssh_connect w ip creds device_type;
                               s = log_add lg s
                           in (case connected of
                                 Inl e \<Rightarrow> (Done (Inl e), s)
                               | Inr None \<Rightarrow> (Done (Inr ([], [])), visit ip s)
                               | Inr (Some net_connect) \<Rightarrow>
                                   (case find_prompt net_connect of
                                      Inl e \<Rightarrow> (Done (Inl e), s)
                                    | Inr prompt \<Rightarrow>
                                        (Marked ip device_type net_connect (hostname_of prompt),
                                         visit ip s)))))))))"
| "worker_step w creds (Marked ip device_type net_connect hostname) s =
     (Recorded ip device_type net_connect,
      record_device \<lparr>rec_ip = ip, rec_device_type = device_type, rec_hostname = hostname\<rparr> s)"
| "worker_step w creds (Recorded ip device_type net_connect) s =
     (let (neighbor_ips, lg) = query_neighbors w net_connect ip device_type
      in (Done (Inr (neighbor_ips, [(ip, device_type)])), log_add lg s))"
| "worker_step w creds (Done r) s = (Done r, s)"

definition piece :: "world \<Rightarrow> pyval \<Rightarrow> worker \<times> shared \<Rightarrow> worker \<times> shared" where
  \<comment> \<open>one piece of a worker, on the pair of the worker and the shared state\<close>
  "piece w creds = (\<lambda>(wk, s). worker_step w creds wk s)"

section \<open>Frontier scheduler\<close>

text \<open>
  One level of \<open>concurrent_discover\<close>: the futures of the level, the futures that
  \<open>as_completed\<close> has already handed to the loop body, and \<open>next_to_visit\<close>. The field
  \<open>seen\<close> keeps, for each result that the loop body took, the index of the future and the
  value of \<open>visited_global\<close> that the subtraction read. A schedule is a list of actions:
  \<open>Run i\<close> lets worker \<open>i\<close> do its next piece, \<open>Take i\<close> lets the loop body take
  future \<open>i\<close> if it is finished and not yet taken; an action that is not possible does
  nothing. The pool size bounds how many workers run at a time; it only removes
  schedules, and the model admits all of them.
\<close>

datatype action = Run nat | Take nat

record level_state =
  shared_state :: shared
  futures :: "worker list"
  yielded :: "nat list"
  next_to_visit :: "address list"
  seen :: "(nat \<times> address list) list"

definition level_init :: "address list \<Rightarrow> shared \<Rightarrow> level_state" where
  "level_init to_visit s =
     \<lparr>shared_state = s, futures = map Queued to_visit, yielded = [], next_to_visit = [],
      seen = []\<rparr>"

fun collect :: "nat \<Rightarrow> discovery \<Rightarrow> level_state \<Rightarrow> level_state" where
  \<comment> \<open>the body of the \<open>as_completed\<close> loop for future \<open>i\<close> with outcome \<open>r\<close>\<close>
  "collect i (Inr (neighbor_ips, claimed)) ls =
     (let new_ips = set_diff neighbor_ips (visited_global (shared_state ls))
      in ls\<lparr>next_to_visit := set_update (next_to_visit ls) new_ips,
             yielded := yielded ls @ [i],
             seen := seen ls @ [(i, visited_global (shared_state ls))]\<rparr>)"
| "collect i (Inl e) ls =
     ls\<lparr>shared_state :=
            log_add [(ERROR, ''Error in thread during discovery: '' @ str e)] (shared_state ls),
          yielded := yielded ls @ [i]\<rparr>"

fun level_step :: "world \<Rightarrow> pyval \<Rightarrow> action \<Rightarrow> level_state \<Rightarrow> level_state" where
  "level_step w creds (Run i) ls =
     (if i < length (futures ls) then
        (let (wk, s) = worker_step w creds (futures ls ! i) (shared_state ls)
         in ls\<lparr>shared_state := s, futures := (futures ls)[i := wk]\<rparr>)
      else ls)"
| "level_step w creds (Take i) ls =
     (if i < length (futures ls) \<and> i \<notin> set (yielded ls) then
        (case futures ls ! i of
           Done r \<Rightarrow> collect i r ls
         | _ \<Rightarrow> ls)
      else ls)"

fun neighbors_of :: "worker \<Rightarrow> address list" where
  \<comment> \<open>the neighbour set that a worker returned; empty while it runs and if it raised\<close>
  "neighbors_of (Done (Inr (neighbor_ips, claimed))) = neighbor_ips"
| "neighbors_of wk = []"

fun has_returned :: "worker \<Rightarrow> bool" where
  "has_returned (Done (Inr r)) = True"
| "has_returned wk = False"

fun raised :: "worker \<Rightarrow> exn option" where
  "raised (Done (Inl e)) = Some e"
| "raised wk = None"

definition level_inv :: "address list \<Rightarrow> level_state \<Rightarrow> bool" where
  \<comment> \<open>what holds of a level at every moment, \<open>visited\<close> being the visited set at its start\<close>
  "level_inv visited ls =
     (distinct (yielded ls) \<and>
      (\<forall>i \<in> set (yielded ls). i < length (futures ls) \<and> (\<exists>r. futures ls ! i = Done r)) \<and>
      map fst (seen ls) = filter (\<lambda>i. has_returned (futures ls ! i)) (yielded ls) \<and>
      set (next_to_visit ls) =
        (\<Union>(i, V) \<in> set (seen ls). set (neighbors_of (futures ls ! i)) - set V) \<and>
      (\<forall>(i, V) \<in> set (seen ls).
         set visited \<subseteq> set V \<and> set V \<subseteq> set (visited_global (shared_state ls))) \<and>
      (\<forall>i \<in> set (yielded ls). \<forall>e. futures ls ! i = Done (Inl e) \<longrightarrow>
         (ERROR, ''Error in thread during discovery: '' @ str e)
           \<in> set (logged (shared_state ls))) \<and>
      set visited \<subseteq> set (visited_global (shared_state ls)))"

definition finish :: "nat \<Rightarrow> action list" where
  \<comment> \<open>leaving the \<open>with\<close> block waits for every worker, and the \<open>as_completed\<close> loop ends
      when every future has been taken\<close>
  "finish n = concat (map (\<lambda>i. [Run i, Run i, Run i, Run i, Take i]) [0..<n])"

definition run_level ::
  "world \<Rightarrow> pyval \<Rightarrow> action list \<Rightarrow> address list \<Rightarrow> shared \<Rightarrow> level_state" where
  "run_level w creds sched to_visit s =
     fold (level_step w creds) (sched @ finish (length to_visit)) (level_init to_visit s)"

text \<open>
  The loop of \<open>concurrent_discover\<close>. \<open>scheds d\<close> is the schedule of the level at depth
  \<open>d\<close>. \<open>ThreadPoolExecutor\<close> raises \<open>ValueError\<close> when \<open>max_workers\<close> is not positive,
  and nothing in \<open>concurrent_discover\<close> catches it.
\<close>

record loop_state =
  to_visit :: "address list"
  current_depth :: nat
  globals :: shared

function discover_loop ::
  "world \<Rightarrow> pyval \<Rightarrow> (nat \<Rightarrow> action list) \<Rightarrow> int \<Rightarrow> int \<Rightarrow> loop_state \<Rightarrow>
   exn option \<times> loop_state" where
  "discover_loop w creds scheds max_depth max_workers st =
     (if int (current_depth st) \<le> max_depth \<and> to_visit st \<noteq> [] then
        (let s = log_add [(INFO, ''Starting discovery depth '' @ show_nat (current_depth st) @
                   '' with '' @ show_nat (length (to_visit st)) @ '' device(s)'')] (globals st)
         in if max_workers \<le> 0 then
              (Some (Exception ''max_workers must be greater than 0''), st\<lparr>globals := s\<rparr>)
            else
              (let ls = run_level w creds (scheds (current_depth st)) (to_visit st) s
               in discover_loop w creds scheds max_depth max_workers
                    \<lparr>to_visit = next_to_visit ls, current_depth = Suc (current_depth st),
                     globals = shared_state ls\<rparr>))
      else (None, st))"
  by pat_completeness auto
termination
  by (relation "measure (\<lambda>(w, creds, scheds, max_depth, max_workers, st).
        nat (max_depth + 1 - int (current_depth st)))") auto

declare discover_loop.simps [simp del]

definition concurrent_discover ::
  "world \<Rightarrow> pyval \<Rightarrow> (nat \<Rightarrow> action list) \<Rightarrow> address \<Rightarrow> int \<Rightarrow> int \<Rightarrow> shared \<Rightarrow>
   (exn + address list \<times> device_record list) \<times> shared" where
  \<comment> \<open>returns \<open>visited_global, results_global\<close>: the shared objects themselves\<close>
  "concurrent_discover w creds scheds seed_ip max_depth max_workers s =
     (case discover_loop w creds scheds max_depth max_workers
             \<lparr>to_visit = [seed_ip], current_depth = 0, globals = s\<rparr> of
        (Some e, st) \<Rightarrow> (Inl e, globals st)
      | (None, st) \<Rightarrow>
          (Inr (visited_global (globals st), results_global (globals st)), globals st))"

section \<open>Persistence\<close>

text \<open>
  The file system is a table from file names to the rows they hold, a row being the
  list of its fields; the quoting done by the \<open>csv\<close> module is outside the model.
  Every operation on a file may raise: \<open>open_error\<close> tells for which names
  \<open>open(filename, 'w')\<close> raises, and then the file system is as before; \<open>write_error\<close>
  tells, for a file that has been opened (and so created or truncated) and the rows to
  be written to it, whether \<open>writeheader\<close>, \<open>writerows\<close> or the closing of the file
  raises, and with which rows the file is left then.
\<close>

record file_system =
  files :: "string \<rightharpoonup> string list list"
  open_error :: "string \<Rightarrow> exn option"
  write_error :: "string \<Rightarrow> string list list \<Rightarrow> (exn \<times> string list list) option"

definition keys :: "device_record \<Rightarrow> string list" where
  \<comment> \<open>the keys of the dictionary appended by \<open>discover_single\<close>, in insertion order\<close>
  "keys r = [''ip'', ''device_type'', ''hostname'']"

definition row_of :: "device_record \<Rightarrow> string list" where
  "row_of r = [rec_ip r, rec_device_type r, rec_hostname r]"

definition save_to_csv ::
  "device_record list \<Rightarrow> string \<Rightarrow> file_system \<times> log_entry list \<Rightarrow> file_system \<times> log_entry list" where
  "save_to_csv results filename = (\<lambda>(fs, lg).
     case results of
       [] \<Rightarrow> (fs, lg @ [(WARNING, ''No devices discovered, skipping CSV export'')])
     | first # _ \<Rightarrow>
         (let failed = (\<lambda>e. (ERROR, ''Failed to write CSV file '' @ [CHR 0x27] @ filename @
                                [CHR 0x27] @ '': '' @ str e));
              rows = keys first # map row_of results
          in (case open_error fs filename of
                Some e \<Rightarrow> (fs, lg @ [failed e])
              | None \<Rightarrow>
                  (case write_error fs filename rows of
                     Some (e, left) \<Rightarrow>
                       (fs\<lparr>files := (files fs)(filename \<mapsto> left)\<rparr>, lg @ [failed e])
                   | None \<Rightarrow>
                       (fs\<lparr>files := (files fs)(filename \<mapsto> rows)\<rparr>,
                        lg @ [(INFO, ''Exported discovered devices to '' @ filename)])))))"

section \<open>Example networks\<close>

definition initial_shared :: shared where
  \<comment> \<open>the module's globals when it is loaded: \<open>visited_global = set()\<close>, \<open>results_global = []\<close>\<close>
  "initial_shared = \<lparr>visited_global = [], results_global = [], logged = []\<rparr>"

definition lab_creds :: pyval where
  \<comment> \<open>a credentials file with a \<open>default\<close> entry only\<close>
  "lab_creds =
     PDict [(PStr ''default'',
             PDict [(PStr ''username'', PStr ''admin''), (PStr ''password'', PStr ''pw'')])]"

definition answering :: "exn + string \<Rightarrow> (string \<times> string) list \<Rightarrow> session" where
  \<comment> \<open>a device with the given prompt that knows the commands of the table\<close>
  "answering prompt table =
     \<lparr>enable = None, find_prompt = prompt,
      send_command = (\<lambda>n cmd. case map_of table cmd of
                        Some out \<Rightarrow> Inr out
                      | None \<Rightarrow> Inl (Exception ''% Invalid input detected''))\<rparr>"

definition host_of :: "kwargs \<Rightarrow> address option" where
  "host_of params = (case map_of params ''host'' of Some (PStr ip) \<Rightarrow> Some ip | _ \<Rightarrow> None)"

definition network :: "(address \<times> string \<times> session) list \<Rightarrow> world" where
  \<comment> \<open>the devices that answer, each with its detected type and its session; any other
      address times out; a set is gone through in the order of insertion\<close>
  "network devs =
     \<lparr>autodetect = (\<lambda>p. case map_option (map_of devs) (host_of p) of
                       Some (Some (t, sess)) \<Rightarrow> Inr (Some t)
                     | _ \<Rightarrow> Inl (Exception ''timed out'')),
      connect_handler = (\<lambda>p. case map_option (map_of devs) (host_of p) of
                       Some (Some (t, sess)) \<Rightarrow> Inr sess
                     | _ \<Rightarrow> Inl (Exception ''timed out'')),
      set_order = (\<lambda>xs x. 0)\<rparr>"

definition xe_world :: world where
  \<comment> \<open>one device, detected as \<open>cisco_xe\<close>\<close>
  "xe_world = network
     [(''10.0.0.5'', ''cisco_xe'',
       answering (Inr ''rtr5#'') [(''show lldp neighbors detail'', ''IP 10.0.0.6'')])]"

definition core_record :: device_record where
  "core_record = \<lparr>rec_ip = ''10.0.0.1'', rec_device_type = ''cisco_ios'', rec_hostname = ''core1''\<rparr>"

definition writable_fs :: file_system where
  "writable_fs = \<lparr>files = Map.empty, open_error = (\<lambda>name. None),
     write_error = (\<lambda>name rows. None)\<rparr>"

definition read_only_fs :: file_system where
  "read_only_fs = \<lparr>files = Map.empty,
     open_error = (\<lambda>name. Some (Exception ''[Errno 13] Permission denied'')),
     write_error = (\<lambda>name rows. None)\<rparr>"

definition full_fs :: file_system where
  \<comment> \<open>a device with room for the header row only\<close>
  "full_fs = \<lparr>files = Map.empty, open_error = (\<lambda>name. None),
     write_error = (\<lambda>name rows.
       Some (Exception ''[Errno 28] No space left on device'', take 1 rows))\<rparr>"

definition juniper_session :: session where
  \<comment> \<open>a Junos device that rejects the first command with a syntax error and then
      answers the summary and the per-interface commands\<close>
  "juniper_session =
     \<lparr>enable = None, find_prompt = Inr ''admin@mx1>'',
      send_command = (\<lambda>n cmd.
        if n = 0 then Inl (Exception ''Syntax Error, expecting <command>.'')
        else if cmd = ''show lldp neighbors'' then
          Inr ''Local Interface    Chassis Id\<newline>ge-0/0/0    00:11\<newline>\<newline>ge-0/0/1    00:22\<newline>''
        else if cmd = ''show lldp neighbors interface ge-0/0/0'' then Inr ''Address : 10.0.1.1''
        else if cmd = ''show lldp neighbors interface ge-0/0/1'' then Inr ''Address : 10.0.1.2''
        else Inl (Exception ''unknown command''))\<rparr>"

definition juniper_partial :: session where
  \<comment> \<open>the same device, which closes the connection at the fourth command\<close>
  "juniper_partial =
     juniper_session\<lparr>send_command := (\<lambda>n cmd.
        if 3 \<le> n then Inl (Exception ''Socket is closed'')
        else send_command juniper_session n cmd)\<rparr>"

definition latest_first :: "string list \<Rightarrow> string \<Rightarrow> nat" where
  \<comment> \<open>the ranking that goes through a set from the element inserted last to the first\<close>
  "latest_first xs x = length xs - length (takeWhile (\<lambda>y. y \<noteq> x) xs)"

definition juniper_world :: world where
  \<comment> \<open>one Junos device, in a run that goes through a set from the last element to the
      first\<close>
  "juniper_world =
     (network [(''10.0.1.0'', ''juniper'', juniper_session)])\<lparr>set_order := latest_first\<rparr>"

definition lab_world :: world where
  \<comment> \<open>two switches that see each other and a third address that does not answer\<close>
  "lab_world = network
     [(''10.0.0.1'', ''cisco_ios'',
       answering (Inr ''core1#'')
         [(''show lldp neighbors detail'', ''Mgmt 10.0.0.2\<newline>Mgmt 10.0.0.3'')]),
      (''10.0.0.2'', ''cisco_ios'',
       answering (Inr ''edge2#'')
         [(''show lldp neighbors detail'', ''Mgmt 10.0.0.1\<newline>Mgmt 10.0.0.3'')])]"

definition locked_world :: world where
  \<comment> \<open>the same network, where every login is refused\<close>
  "locked_world =
     lab_world\<lparr>connect_handler := (\<lambda>p. Inl (Exception ''Authentication failed.''))\<rparr>"

definition flaky_world :: world where
  \<comment> \<open>three switches; the second accepts the connection, but reading its prompt
      raises\<close>
  "flaky_world = network
     [(''10.0.0.1'', ''cisco_ios'',
       answering (Inr ''core1#'')
         [(''show lldp neighbors detail'', ''Mgmt 10.0.0.2\<newline>Mgmt 10.0.0.3'')]),
      (''10.0.0.2'', ''cisco_ios'',
       answering (Inl (Exception ''Pattern not detected''))
         [(''show lldp neighbors detail'', ''Mgmt 10.0.0.1'')]),
      (''10.0.0.3'', ''cisco_ios'',
       answering (Inr ''edge3#'')
         [(''show lldp neighbors detail'', ''Mgmt 10.0.0.1\<newline>Mgmt 10.0.0.2'')])]"

definition in_turn :: "nat \<Rightarrow> action list" where
  \<comment> \<open>the schedules in which, at every level, each worker runs to its end and is
      collected before the next one starts\<close>
  "in_turn d = []"

section \<open>Properties of the address extractor\<close>

lemma rx_digits_sound:
  assumes "(m', r') \<in> set (rx_digits (m, r))"
  shows "\<exists>g. digit_group g \<and> m' = m @ g \<and> r = g @ r'"
proof -
  from assms obtain k where k: "k \<in> {1, 2, 3}" "k \<le> length r" "list_all is_digit (take k r)"
    "m' = m @ take k r" "r' = drop k r"
    by (auto simp: rx_digits_def split: if_splits)
  then have "digit_group (take k r)"
    by (auto simp: digit_group_def)
  with k show ?thesis
    by (metis append_take_drop_id)
qed

lemma rx_dot_sound:
  "(m', r') \<in> set (rx_dot (m, r)) \<Longrightarrow> m' = m @ ''.'' \<and> r = ''.'' @ r'"
  by (auto simp: rx_dot_def split: list.splits if_splits)

lemma rx_group_sound:
  assumes "(m', r') \<in> set (rx_group (m, r))"
  shows "\<exists>g. digit_group g \<and> m' = m @ g @ ''.'' \<and> r = g @ ''.'' @ r'"
proof -
  from assms obtain m1 r1 where a: "(m1, r1) \<in> set (rx_digits (m, r))" and b: "(m', r') \<in> set (rx_dot (m1, r1))"
    by (auto simp: rx_group_def rx_then_def)
  from rx_digits_sound [OF a] obtain g where "digit_group g" "m1 = m @ g" "r = g @ r1" by blast
  with rx_dot_sound [OF b] show ?thesis by auto
qed

lemma rx_boundary_sound:
  "x \<in> set (rx_boundary prev y) \<Longrightarrow> x = y"
  by (cases y) (auto simp: rx_boundary_def split: if_splits)

lemma ip_pattern_sound:
  assumes "(m, r) \<in> set (ip_pattern prev s)"
  shows "ipv4_shape m \<and> s = m @ r"
proof -
  from assms obtain x0 x1 x2 x3 x4 where
    s0: "x0 \<in> set (rx_boundary prev ([], s))" and
    s1: "x1 \<in> set (rx_group x0)" and
    s2: "x2 \<in> set (rx_group x1)" and
    s3: "x3 \<in> set (rx_group x2)" and
    s4: "x4 \<in> set (rx_digits x3)" and
    s5: "(m, r) \<in> set (rx_boundary prev x4)"
    unfolding ip_pattern_def rx_then_def by auto
  from s0 have x0: "x0 = ([], s)" by (rule rx_boundary_sound)
  from s5 have "(m, r) = x4" by (rule rx_boundary_sound)
  then have x4: "x4 = (m, r)" by simp
  obtain m1 r1 where x1: "x1 = (m1, r1)" by (cases x1)
  obtain m2 r2 where x2: "x2 = (m2, r2)" by (cases x2)
  obtain m3 r3 where x3: "x3 = (m3, r3)" by (cases x3)
  from rx_group_sound [OF s1 [unfolded x0 x1]] obtain a where
    a: "digit_group a" "m1 = a @ ''.''" "s = a @ ''.'' @ r1" by auto
  from rx_group_sound [OF s2 [unfolded x1 x2]] obtain b where
    b: "digit_group b" "m2 = m1 @ b @ ''.''" "r1 = b @ ''.'' @ r2" by auto
  from rx_group_sound [OF s3 [unfolded x2 x3]] obtain c where
    c: "digit_group c" "m3 = m2 @ c @ ''.''" "r2 = c @ ''.'' @ r3" by auto
  from rx_digits_sound [OF s4 [unfolded x3 x4]] obtain d where
    d: "digit_group d" "m = m3 @ d" "r3 = d @ r" by auto
  have "m = a @ ''.'' @ b @ ''.'' @ c @ ''.'' @ d"
    using a b c d by simp
  moreover have "s = m @ r"
    using a b c d by simp
  ultimately show ?thesis
    using a(1) b(1) c(1) d(1) unfolding ipv4_shape_def by blast
qed

lemma substring_Cons: "substring x s \<Longrightarrow> substring x (c # s)"
  unfolding substring_def by (metis append_Cons)

lemma findall_from_sound:
  "x \<in> set (findall_from k prev s) \<Longrightarrow> ipv4_shape x \<and> substring x s"
proof (induction k prev s rule: findall_from.induct)
  case (1 skip prev)
  then show ?case by simp
next
  case (2 k prev c s)
  then show ?case by (auto intro: substring_Cons)
next
  case (3 prev c s)
  show ?case
  proof (cases "ip_pattern prev (c # s)")
    case Nil
    with 3 show ?thesis by (auto intro: substring_Cons)
  next
    case (Cons mr rest)
    obtain m r where mr: "mr = (m, r)" by (cases mr)
    have "(m, r) \<in> set (ip_pattern prev (c # s))"
      using Cons mr by simp
    from ip_pattern_sound [OF this] have m: "ipv4_shape m" "c # s = m @ r" by auto
    then have sub: "substring m (c # s)"
      unfolding substring_def by (metis append_Nil)
    from "3.prems" Cons mr have "x = m \<or> x \<in> set (findall_from (length m - 1) (Some c) s)"
      by simp
    then show ?thesis
    proof
      assume "x = m"
      with m(1) sub show ?thesis by simp
    next
      assume "x \<in> set (findall_from (length m - 1) (Some c) s)"
      from "3.IH"(2) [OF Cons mr [symmetric] this]
      show ?thesis by (auto intro: substring_Cons)
    qed
  qed
qed

lemma extract_all_ips_sound:
  "x \<in> set (extract_all_ips t) \<Longrightarrow> ipv4_shape x \<and> substring x t"
  by (simp add: extract_all_ips_def findall_def findall_from_sound)

lemma extract_all_ips_999:
  "extract_all_ips ''999.999.999.999'' = [''999.999.999.999'']"
  by code_simp

lemma is_digit_word: "is_digit c \<Longrightarrow> is_word c"
  by (simp add: is_digit_def is_word_def)

lemma dot_not_digit [simp]: "\<not> is_digit CHR ''.''"
  by (simp add: is_digit_def between_def)

lemma digit_groupD: "digit_group g \<Longrightarrow> g \<noteq> [] \<and> (\<forall>c \<in> set g. is_digit c)"
  by (auto simp: digit_group_def list_all_iff)

lemma ipv4_shape_nonempty: "ipv4_shape m \<Longrightarrow> m \<noteq> []"
  by (auto simp: ipv4_shape_def dest: digit_groupD)

lemma ipv4_shape_hd: "ipv4_shape m \<Longrightarrow> is_digit (hd m)"
proof -
  assume "ipv4_shape m"
  then obtain a rest where "m = a @ rest" "digit_group a"
    unfolding ipv4_shape_def by blast
  then show ?thesis
    using digit_groupD [of a] by (cases a) auto
qed

lemma ipv4_shape_last: "ipv4_shape m \<Longrightarrow> is_digit (last m)"
proof -
  assume "ipv4_shape m"
  then obtain front d where "m = front @ d" "digit_group d"
    unfolding ipv4_shape_def by (metis append.assoc)
  then show ?thesis
    using digit_groupD [of d] by (simp add: last_append)
qed

lemma ipv4_shape_chars: "ipv4_shape m \<Longrightarrow> c \<in> set m \<Longrightarrow> is_digit c \<or> c = CHR ''.''"
  by (auto simp: ipv4_shape_def digit_group_def list_all_iff)

lemma word_boundary_after:
  "is_word c \<Longrightarrow> word_boundary (Some c) r = (r = [] \<or> \<not> is_word (hd r))"
  by (cases r) (simp_all add: word_boundary_def)

lemma word_boundary_before:
  "s \<noteq> [] \<Longrightarrow> is_word (hd s) \<Longrightarrow>
   word_boundary prev s = (case prev of None \<Rightarrow> True | Some c \<Rightarrow> \<not> is_word c)"
  by (cases s; cases prev) (simp_all add: word_boundary_def)

text \<open>The matcher finds a match at a position exactly when there is one, and there is
  at most one.\<close>

lemma rx_boundary_holds:
  "x \<in> set (rx_boundary prev (m, r)) \<Longrightarrow>
   word_boundary (if m = [] then prev else Some (last m)) r"
  by (auto simp: rx_boundary_def split: if_splits)

lemma ip_pattern_match:
  assumes "(m, r) \<in> set (ip_pattern prev s)"
  shows "match_at prev s m r"
proof -
  from assms obtain x0 x4 where
    s0: "x0 \<in> set (rx_boundary prev ([], s))" and
    s5: "(m, r) \<in> set (rx_boundary prev x4)"
    unfolding ip_pattern_def rx_then_def by auto
  from s5 have "(m, r) = x4" by (rule rx_boundary_sound)
  with s5 have b5: "(m, r) \<in> set (rx_boundary prev (m, r))" by simp
  from ip_pattern_sound [OF assms] have sh: "ipv4_shape m" "s = m @ r" by simp_all
  from rx_boundary_holds [OF s0] have "word_boundary prev s" by simp
  moreover from rx_boundary_holds [OF b5] ipv4_shape_nonempty [OF sh(1)]
  have "word_boundary (Some (last m)) r" by simp
  ultimately show ?thesis
    using sh by (simp add: match_at_def)
qed

lemma rx_then_member: "x \<in> set xs \<Longrightarrow> y \<in> set (f x) \<Longrightarrow> y \<in> set (rx_then xs f)"
  by (auto simp: rx_then_def)

lemma rx_digits_complete:
  assumes "digit_group g"
  shows "(m @ g, r) \<in> set (rx_digits (m, g @ r))"
proof -
  from assms have "length g = 1 \<or> length g = 2 \<or> length g = 3" and "list_all is_digit g"
    by (auto simp: digit_group_def)
  then show ?thesis
    by (auto simp: rx_digits_def)
qed

lemma rx_group_complete:
  assumes "digit_group g"
  shows "(m @ g @ ''.'', r) \<in> set (rx_group (m, g @ ''.'' @ r))"
proof -
  have "(m @ g, ''.'' @ r) \<in> set (rx_digits (m, g @ ''.'' @ r))"
    using assms by (rule rx_digits_complete)
  moreover have "(m @ g @ ''.'', r) \<in> set (rx_dot (m @ g, ''.'' @ r))"
    by (simp add: rx_dot_def)
  ultimately show ?thesis
    unfolding rx_group_def rx_then_def by auto
qed

lemma ip_pattern_complete:
  assumes "match_at prev s m r"
  shows "(m, r) \<in> set (ip_pattern prev s)"
proof -
  from assms have s: "s = m @ r" and sh: "ipv4_shape m" and
    b0: "word_boundary prev s" and b1: "word_boundary (Some (last m)) r"
    unfolding match_at_def by blast+
  from sh obtain a b c d where m: "m = a @ ''.'' @ b @ ''.'' @ c @ ''.'' @ d" and
    g: "digit_group a" "digit_group b" "digit_group c" "digit_group d"
    unfolding ipv4_shape_def by blast
  have ne: "m \<noteq> []" using sh by (rule ipv4_shape_nonempty)
  have x0: "([], s) \<in> set (rx_boundary prev ([], s))"
    using b0 by (simp add: rx_boundary_def)
  have x1: "(a @ ''.'', b @ ''.'' @ c @ ''.'' @ d @ r) \<in> set (rx_group ([], s))"
    using rx_group_complete [OF g(1), of "[]" "b @ ''.'' @ c @ ''.'' @ d @ r"]
    by (simp add: s m)
  have x2: "(a @ ''.'' @ b @ ''.'', c @ ''.'' @ d @ r) \<in>
      set (rx_group (a @ ''.'', b @ ''.'' @ c @ ''.'' @ d @ r))"
    using rx_group_complete [OF g(2), of "a @ ''.''" "c @ ''.'' @ d @ r"] by simp
  have x3: "(a @ ''.'' @ b @ ''.'' @ c @ ''.'', d @ r) \<in>
      set (rx_group (a @ ''.'' @ b @ ''.'', c @ ''.'' @ d @ r))"
    using rx_group_complete [OF g(3), of "a @ ''.'' @ b @ ''.''" "d @ r"] by simp
  have x4: "(m, r) \<in> set (rx_digits (a @ ''.'' @ b @ ''.'' @ c @ ''.'', d @ r))"
    using rx_digits_complete [OF g(4), of "a @ ''.'' @ b @ ''.'' @ c @ ''.''" r]
    by (simp add: m)
  have x5: "(m, r) \<in> set (rx_boundary prev (m, r))"
    using b1 ne by (simp add: rx_boundary_def)
  have y1: "(a @ ''.'', b @ ''.'' @ c @ ''.'' @ d @ r) \<in>
      set (rx_then (rx_boundary prev ([], s)) rx_group)"
    using x0 x1 unfolding rx_then_def by auto
  have y2: "(a @ ''.'' @ b @ ''.'', c @ ''.'' @ d @ r) \<in>
      set (rx_then (rx_then (rx_boundary prev ([], s)) rx_group) rx_group)"
    using y1 x2 unfolding rx_then_def [of _ rx_group] by (auto simp del: append_assoc)
  have y3: "(a @ ''.'' @ b @ ''.'' @ c @ ''.'', d @ r) \<in>
      set (rx_then (rx_then (rx_then (rx_boundary prev ([], s)) rx_group) rx_group) rx_group)"
    using y2 x3 unfolding rx_then_def [of _ rx_group] by (auto simp del: append_assoc)
  have y4: "(m, r) \<in>
      set (rx_then (rx_then (rx_then (rx_then (rx_boundary prev ([], s)) rx_group) rx_group)
             rx_group) rx_digits)"
    using y3 x4 unfolding rx_then_def [of _ rx_digits] by (auto simp del: append_assoc)
  show ?thesis
    unfolding ip_pattern_def
    using y4 x5 unfolding rx_then_def [of _ "rx_boundary prev"] by auto
qed

lemma takeWhile_digits:
  assumes "\<forall>c \<in> set g. is_digit c" and "r = [] \<or> \<not> is_digit (hd r)"
  shows "takeWhile is_digit (g @ r) = g"
proof -
  have "takeWhile is_digit r = []"
    using assms(2) by (cases r) auto
  with assms(1) show ?thesis
    by simp
qed

lemma group_unique:
  assumes "digit_group g" and "digit_group g'" and "g @ ''.'' @ r = g' @ ''.'' @ r'"
  shows "g = g' \<and> r = r'"
proof -
  have "takeWhile is_digit (g @ ''.'' @ r) = g"
    using digit_groupD [OF assms(1)] by (intro takeWhile_digits) simp_all
  moreover have "takeWhile is_digit (g' @ ''.'' @ r') = g'"
    using digit_groupD [OF assms(2)] by (intro takeWhile_digits) simp_all
  ultimately have "g = g'"
    using assms(3) by simp
  with assms(3) show ?thesis by simp
qed

lemma last_group_unique:
  assumes "digit_group d" and "digit_group d'" and "d @ r = d' @ r'"
    and "r = [] \<or> \<not> is_digit (hd r)" and "r' = [] \<or> \<not> is_digit (hd r')"
  shows "d = d' \<and> r = r'"
proof -
  have "takeWhile is_digit (d @ r) = d"
    using digit_groupD [OF assms(1)] assms(4) by (intro takeWhile_digits) simp_all
  moreover have "takeWhile is_digit (d' @ r') = d'"
    using digit_groupD [OF assms(2)] assms(5) by (intro takeWhile_digits) simp_all
  ultimately have "d = d'"
    using assms(3) by simp
  with assms(3) show ?thesis by simp
qed

lemma match_at_after:
  assumes "match_at prev s m r"
  shows "r = [] \<or> \<not> is_digit (hd r)"
proof -
  from assms have sh: "ipv4_shape m" and b: "word_boundary (Some (last m)) r"
    by (simp_all add: match_at_def)
  have "is_word (last m)"
    using ipv4_shape_last [OF sh] by (rule is_digit_word)
  from b [unfolded word_boundary_after [OF this]] show ?thesis
    using is_digit_word by blast
qed

lemma match_at_unique:
  assumes "match_at prev s m r" and "match_at prev s m' r'"
  shows "m = m' \<and> r = r'"
proof -
  from assms(1) obtain a b c d where m: "m = a @ ''.'' @ b @ ''.'' @ c @ ''.'' @ d" and
    g: "digit_group a" "digit_group b" "digit_group c" "digit_group d" and s: "s = m @ r"
    unfolding match_at_def ipv4_shape_def by blast
  from assms(2) obtain a' b' c' d' where m': "m' = a' @ ''.'' @ b' @ ''.'' @ c' @ ''.'' @ d'" and
    g': "digit_group a'" "digit_group b'" "digit_group c'" "digit_group d'" and s': "s = m' @ r'"
    unfolding match_at_def ipv4_shape_def by blast
  have e0: "a @ ''.'' @ (b @ ''.'' @ c @ ''.'' @ d @ r) = a' @ ''.'' @ (b' @ ''.'' @ c' @ ''.'' @ d' @ r')"
    using s s' m m' by simp
  from group_unique [OF g(1) g'(1) e0]
  have a: "a = a'" and e1: "b @ ''.'' @ (c @ ''.'' @ d @ r) = b' @ ''.'' @ (c' @ ''.'' @ d' @ r')"
    by simp_all
  from group_unique [OF g(2) g'(2) e1]
  have b: "b = b'" and e2: "c @ ''.'' @ (d @ r) = c' @ ''.'' @ (d' @ r')"
    by simp_all
  from group_unique [OF g(3) g'(3) e2]
  have c: "c = c'" and e3: "d @ r = d' @ r'"
    by simp_all
  from last_group_unique [OF g(4) g'(4) e3 match_at_after [OF assms(1)] match_at_after [OF assms(2)]]
  have "d = d'" "r = r'" by simp_all
  with a b c m m' show ?thesis by simp
qed

lemma ip_pattern_Nil: "ip_pattern prev s = [] \<longleftrightarrow> (\<forall>m r. \<not> match_at prev s m r)"
proof
  assume e: "ip_pattern prev s = []"
  show "\<forall>m r. \<not> match_at prev s m r"
  proof (intro allI notI)
    fix m r assume "match_at prev s m r"
    from ip_pattern_complete [OF this] e show False by simp
  qed
next
  assume n: "\<forall>m r. \<not> match_at prev s m r"
  show "ip_pattern prev s = []"
  proof (cases "ip_pattern prev s")
    case Nil
    then show ?thesis .
  next
    case (Cons x xs)
    obtain m r where "x = (m, r)" by (cases x)
    with Cons have "(m, r) \<in> set (ip_pattern prev s)" by simp
    from ip_pattern_match [OF this] n show ?thesis by blast
  qed
qed

lemma ip_pattern_Cons: "ip_pattern prev s = (m, r) # rest \<Longrightarrow> match_at prev s m r"
  by (rule ip_pattern_match) simp

text \<open>After a match the scan goes on behind it.\<close>

lemma findall_from_skip:
  "0 < k \<Longrightarrow> k \<le> length s \<Longrightarrow>
   findall_from k prev s = findall_from 0 (Some (s ! (k - 1))) (drop k s)"
proof (induction s arbitrary: k prev)
  case Nil
  then show ?case by simp
next
  case (Cons c s)
  from Cons.prems obtain k' where k: "k = Suc k'" by (cases k) auto
  show ?case
  proof (cases "k' = 0")
    case True
    with k show ?thesis by simp
  next
    case False
    with Cons.prems k have "0 < k'" "k' \<le> length s" by simp_all
    from Cons.IH [OF this, of "Some c"] show ?thesis
      using k False by (simp add: nth_Cons')
  qed
qed

lemma findall_from_jump:
  assumes "c # s = m @ r" and "m \<noteq> []"
  shows "findall_from (length m - 1) (Some c) s = findall_from 0 (Some (last m)) r"
proof -
  from assms obtain m' where m: "m = c # m'" and s: "s = m' @ r"
    by (cases m) auto
  show ?thesis
  proof (cases "m' = []")
    case True
    with m s show ?thesis by simp
  next
    case False
    then have "0 < length m'" by simp
    moreover have "length m' \<le> length s" using s by simp
    ultimately have "findall_from (length m') (Some c) s =
        findall_from 0 (Some (s ! (length m' - 1))) (drop (length m') s)"
      by (rule findall_from_skip)
    moreover have "s ! (length m' - 1) = last m'"
      using False s by (simp add: nth_append last_conv_nth)
    moreover have "drop (length m') s = r" using s by simp
    ultimately show ?thesis
      using m False by simp
  qed
qed

text \<open>The scan of the model is the scan of the description.\<close>

lemma findall_from_scan: "scan prev s (findall_from 0 prev s)"
proof (induction s arbitrary: prev rule: length_induct)
  case (1 s)
  show ?case
  proof (cases s)
    case Nil
    then show ?thesis by (simp add: scan_end)
  next
    case (Cons c s')
    show ?thesis
    proof (cases "ip_pattern prev (c # s')")
      case Nil
      then have none: "\<forall>m r. \<not> match_at prev (c # s') m r"
        by (simp add: ip_pattern_Nil)
      have "scan (Some c) s' (findall_from 0 (Some c) s')"
        using 1 Cons by simp
      from scan_move [OF none this] show ?thesis
        using Cons Nil by simp
    next
      case (Cons x rest)
      obtain m r where x: "x = (m, r)" by (cases x)
      have ma: "match_at prev (c # s') m r"
        using Cons x by (intro ip_pattern_Cons) simp
      then have sh: "ipv4_shape m" and eq: "c # s' = m @ r"
        by (simp_all add: match_at_def)
      have ne: "m \<noteq> []" using sh by (rule ipv4_shape_nonempty)
      have "length (c # s') = length m + length r"
        using eq by (metis length_append)
      then have "length r < length s"
        using ne \<open>s = c # s'\<close> by simp
      then have "scan (Some (last m)) r (findall_from 0 (Some (last m)) r)"
        using 1 by simp
      from scan_match [OF ma this]
      have "scan prev (c # s') (m # findall_from 0 (Some (last m)) r)" .
      moreover have "findall_from 0 prev (c # s') = m # findall_from 0 (Some (last m)) r"
        using Cons x findall_from_jump [OF eq ne] by simp
      ultimately show ?thesis
        using \<open>s = c # s'\<close> by simp
    qed
  qed
qed

lemma scan_unique: "scan prev s ms \<Longrightarrow> scan prev s ms' \<Longrightarrow> ms = ms'"
proof (induction arbitrary: ms' rule: scan.induct)
  case (scan_end prev)
  then show ?case by (auto elim: scan.cases)
next
  case (scan_move prev c s ms)
  from scan_move.prems show ?case
  proof (cases rule: scan.cases)
    case (scan_move)
    then show ?thesis using scan_move.IH by simp
  next
    case (scan_match m r ms'')
    with scan_move.hyps(1) show ?thesis by blast
  qed
next
  case (scan_match prev c s m r ms)
  from scan_match.prems show ?case
  proof (cases rule: scan.cases)
    case (scan_move)
    with scan_match.hyps(1) show ?thesis by blast
  next
    case inner: (scan_match m' r' ms'')
    from match_at_unique [OF scan_match.hyps(1) inner(2)] have "m = m'" "r = r'" by simp_all
    with inner scan_match.IH show ?thesis by simp
  qed
qed

lemma char_before_Cons: "char_before prev (c # before) = char_before (Some c) before"
  by (simp add: char_before_def)

lemma char_before_append:
  "m \<noteq> [] \<Longrightarrow> char_before prev (m @ before) = char_before (Some (last m)) before"
  by (simp add: char_before_def)

text \<open>Each match of the scan is a match at some position of the text.\<close>

lemma scan_occurs:
  "scan prev s ms \<Longrightarrow> x \<in> set ms \<Longrightarrow>
   \<exists>before after. s = before @ x @ after \<and> match_at (char_before prev before) (x @ after) x after"
proof (induction rule: scan.induct)
  case (scan_end prev)
  then show ?case by simp
next
  case (scan_move prev c s ms)
  from scan_move.IH [OF scan_move.prems] obtain before after where
    "s = before @ x @ after" "match_at (char_before (Some c) before) (x @ after) x after"
    by blast
  then have "c # s = (c # before) @ x @ after \<and>
      match_at (char_before prev (c # before)) (x @ after) x after"
    by (simp add: char_before_Cons)
  then show ?case by blast
next
  case (scan_match prev c s m r ms)
  from scan_match.hyps(1) have eq: "c # s = m @ r" and sh: "ipv4_shape m"
    by (simp_all add: match_at_def)
  have ne: "m \<noteq> []" using sh by (rule ipv4_shape_nonempty)
  from scan_match.prems have "x = m \<or> x \<in> set ms" by auto
  then show ?case
  proof
    assume "x = m"
    with scan_match.hyps(1) eq have "c # s = [] @ x @ r \<and>
        match_at (char_before prev []) (x @ r) x r"
      by (simp add: char_before_def)
    then show ?thesis by blast
  next
    assume "x \<in> set ms"
    from scan_match.IH [OF this] obtain before after where
      "r = before @ x @ after" "match_at (char_before (Some (last m)) before) (x @ after) x after"
      by blast
    then have "c # s = (m @ before) @ x @ after \<and>
        match_at (char_before prev (m @ before)) (x @ after) x after"
      using eq ne by (simp add: char_before_append)
    then show ?thesis by blast
  qed
qed

text \<open>If the pattern matches somewhere, the scan finds a match.\<close>

lemma scan_finds:
  "scan prev (before @ rest) ms \<Longrightarrow> match_at (char_before prev before) rest m r \<Longrightarrow> ms \<noteq> []"
proof (induction before arbitrary: prev ms)
  case Nil
  from Nil.prems(2) have ma: "match_at prev rest m r" by (simp add: char_before_def)
  from Nil.prems(1) have "scan prev rest ms" by simp
  then show ?case
  proof (cases rule: scan.cases)
    case scan_end
    with ma ipv4_shape_nonempty show ?thesis by (auto simp: match_at_def)
  next
    case (scan_move c s)
    with ma show ?thesis by blast
  next
    case (scan_match c s m' r' ms')
    then show ?thesis by simp
  qed
next
  case (Cons b bs)
  from Cons.prems(1) have "scan prev (b # (bs @ rest)) ms" by simp
  then show ?case
  proof (cases rule: scan.cases)
    case (scan_move)
    from Cons.IH [OF scan_move(2)] Cons.prems(2) show ?thesis
      by (simp add: char_before_Cons)
  next
    case (scan_match m' r' ms')
    then show ?thesis by simp
  qed
qed

text \<open>A position whose preceding character is neither a digit nor a dot is reached by
  the scan: no match can run over it.\<close>

lemma scan_reaches:
  "scan prev (before @ rest) ms \<Longrightarrow>
   before = [] \<or> (\<not> is_digit (last before) \<and> last before \<noteq> CHR ''.'') \<Longrightarrow>
   \<exists>pre post. ms = pre @ post \<and> scan (char_before prev before) rest post"
proof (induction before arbitrary: prev ms rule: length_induct)
  case (1 before)
  show ?case
  proof (cases before)
    case Nil
    with "1.prems"(1) have "ms = [] @ ms \<and> scan (char_before prev before) rest ms"
      by (simp add: char_before_def)
    then show ?thesis by blast
  next
    case (Cons b bs)
    have edge: "\<not> is_digit (last before)" "last before \<noteq> CHR ''.''"
      using "1.prems"(2) Cons by simp_all
    from "1.prems"(1) Cons have "scan prev (b # (bs @ rest)) ms" by simp
    then show ?thesis
    proof (cases rule: scan.cases)
      case (scan_move)
      have "bs = [] \<or> (\<not> is_digit (last bs) \<and> last bs \<noteq> CHR ''.'')"
        using edge Cons by (cases "bs = []") simp_all
      moreover have "length bs < length before" using Cons by simp
      ultimately obtain pre post where
        "ms = pre @ post" "scan (char_before (Some b) bs) rest post"
        using "1.IH" scan_move(2) by blast
      then show ?thesis
        using Cons by (auto simp: char_before_Cons)
    next
      case (scan_match m r ms')
      from scan_match(2) have eq: "b # (bs @ rest) = m @ r" and sh: "ipv4_shape m"
        by (simp_all add: match_at_def)
      have ne: "m \<noteq> []" using sh by (rule ipv4_shape_nonempty)
      have eq': "before @ rest = m @ r" using eq Cons by simp
      then obtain us where
        "(before = m @ us \<and> us @ rest = r) \<or> (before @ us = m \<and> rest = us @ r)"
        by (auto simp: append_eq_append_conv2)
      then have "\<exists>before'. before = m @ before' \<and> r = before' @ rest"
      proof
        assume "before = m @ us \<and> us @ rest = r"
        then show ?thesis by blast
      next
        assume "before @ us = m \<and> rest = us @ r"
        then have "set before \<subseteq> set m" by auto
        moreover have "last before \<in> set before" using Cons by simp
        ultimately have "last before \<in> set m" by blast
        from ipv4_shape_chars [OF sh this] edge show ?thesis by simp
      qed
      then obtain before' where b': "before = m @ before'" and r: "r = before' @ rest"
        by blast
      have "length before' < length before" using b' ne by simp
      moreover have "before' = [] \<or> (\<not> is_digit (last before') \<and> last before' \<noteq> CHR ''.'')"
        using edge b' by (cases "before' = []") simp_all
      ultimately obtain pre' post where
        "ms' = pre' @ post" "scan (char_before (Some (last m)) before') rest post"
        using "1.IH" scan_match(3) [unfolded r] by blast
      then have "ms = (m # pre') @ post \<and> scan (char_before prev before) rest post"
        using scan_match(1) b' ne by (simp add: char_before_append)
      then show ?thesis by blast
    qed
  qed
qed

lemma scan_delimited:
  assumes sc: "scan prev (before @ m @ after) ms" and sh: "ipv4_shape m"
    and left: "before = [] \<or> (\<not> is_word (last before) \<and> last before \<noteq> CHR ''.'')"
    and start: "before = [] \<longrightarrow> (case prev of None \<Rightarrow> True | Some c \<Rightarrow> \<not> is_word c)"
    and right: "after = [] \<or> \<not> is_word (hd after)"
  shows "m \<in> set ms"
proof -
  have ne: "m \<noteq> []" using sh by (rule ipv4_shape_nonempty)
  have "before = [] \<or> (\<not> is_digit (last before) \<and> last before \<noteq> CHR ''.'')"
    using left is_digit_word by blast
  from scan_reaches [OF sc this] obtain pre post where
    ms: "ms = pre @ post" and post: "scan (char_before prev before) (m @ after) post"
    by blast
  have hdw: "is_word (hd (m @ after))"
    using ipv4_shape_hd [OF sh] ne by (simp add: is_digit_word)
  have ne': "m @ after \<noteq> []" using ne by simp
  have "word_boundary (char_before prev before) (m @ after)"
    unfolding word_boundary_before [OF ne' hdw]
    using left start by (auto simp: char_before_def split: option.splits)
  moreover have "word_boundary (Some (last m)) after"
    unfolding word_boundary_after [OF is_digit_word [OF ipv4_shape_last [OF sh]]]
    using right .
  ultimately have ma: "match_at (char_before prev before) (m @ after) m after"
    using sh by (simp add: match_at_def)
  from post show ?thesis
  proof (cases rule: scan.cases)
    case scan_end
    with ne show ?thesis by simp
  next
    case (scan_move c s)
    with ma show ?thesis by metis
  next
    case (scan_match c s m' r' ms')
    from match_at_unique [OF ma scan_match(3) [folded scan_match(1)]] have "m = m'" by simp
    with scan_match ms show ?thesis by simp
  qed
qed

lemma findall_scan: "scan None t (findall t)"
  unfolding findall_def by (rule findall_from_scan)

lemma extract_all_ips_set: "set (extract_all_ips t) = set (findall t)"
  by (simp add: extract_all_ips_def)

lemma ipv4_shapeI:
  "digit_group a \<Longrightarrow> digit_group b \<Longrightarrow> digit_group c \<Longrightarrow> digit_group d \<Longrightarrow>
   ipv4_shape (a @ ''.'' @ b @ ''.'' @ c @ ''.'' @ d)"
  unfolding ipv4_shape_def by blast

lemma digit_group_simps [simp]:
  "digit_group [] = False"
  "digit_group [x] = is_digit x"
  "digit_group [x, y] = (is_digit x \<and> is_digit y)"
  "digit_group [x, y, z] = (is_digit x \<and> is_digit y \<and> is_digit z)"
  by (simp_all add: digit_group_def)

text \<open>
  Claim C4, as the source has it. For every text, the empty one included, the address
  extractor returns a value (the model has no failing branch, as \<open>re.findall\<close> on a
  string has none). The result is, without duplicates, the list of matches of the one
  scan of the text from left to right that takes at each position the match of the
  pattern there, if there is one, and goes on behind it. So each member has the shape of
  four groups of one to three digits separated by dots and stands in the text between
  two word boundaries; the result is empty exactly when the pattern matches at no
  position; an address of that shape is returned whenever it stands at the start of the
  text or behind a character that is neither a word character nor a dot, and at the end
  of the text or before a character that is no word character; the groups are not
  checked against 255, so \<open>999.999.999.999\<close> is returned.
\<close>

theorem extract_all_ips_contract:
  "(\<exists>ms. scan None t ms \<and> extract_all_ips t = remdups ms \<and>
         (\<forall>ms'. scan None t ms' \<longrightarrow> ms' = ms)) \<and>
   distinct (extract_all_ips t) \<and>
   (\<forall>x \<in> set (extract_all_ips t). ipv4_shape x \<and>
      (\<exists>before after. t = before @ x @ after \<and>
         match_at (char_before None before) (x @ after) x after)) \<and>
   (extract_all_ips t = [] \<longleftrightarrow>
      (\<forall>before m after. t = before @ m @ after \<longrightarrow>
         \<not> match_at (char_before None before) (m @ after) m after)) \<and>
   (\<forall>before m after.
      t = before @ m @ after \<and> ipv4_shape m \<and>
      (before = [] \<or> (\<not> is_word (last before) \<and> last before \<noteq> CHR ''.'')) \<and>
      (after = [] \<or> \<not> is_word (hd after)) \<longrightarrow>
      m \<in> set (extract_all_ips t)) \<and>
   extract_all_ips [] = [] \<and>
   extract_all_ips ''999.999.999.999'' = [''999.999.999.999'']"
proof (intro conjI)
  have "scan None t (findall t) \<and> extract_all_ips t = remdups (findall t) \<and>
         (\<forall>ms'. scan None t ms' \<longrightarrow> ms' = findall t)"
    using findall_scan scan_unique by (auto simp: extract_all_ips_def)
  then show "\<exists>ms. scan None t ms \<and> extract_all_ips t = remdups ms \<and>
         (\<forall>ms'. scan None t ms' \<longrightarrow> ms' = ms)"
    by (rule exI)
next
  show "distinct (extract_all_ips t)"
    by (simp add: extract_all_ips_def)
next
  show "\<forall>x \<in> set (extract_all_ips t). ipv4_shape x \<and>
      (\<exists>before after. t = before @ x @ after \<and>
         match_at (char_before None before) (x @ after) x after)"
  proof
    fix x assume "x \<in> set (extract_all_ips t)"
    then have x: "x \<in> set (findall t)" by (simp add: extract_all_ips_set)
    from scan_occurs [OF findall_scan x]
    have "\<exists>before after. t = before @ x @ after \<and>
         match_at (char_before None before) (x @ after) x after" .
    moreover from this have "ipv4_shape x" by (auto simp: match_at_def)
    ultimately show "ipv4_shape x \<and>
      (\<exists>before after. t = before @ x @ after \<and>
         match_at (char_before None before) (x @ after) x after)" by simp
  qed
next
  show "extract_all_ips t = [] \<longleftrightarrow>
      (\<forall>before m after. t = before @ m @ after \<longrightarrow>
         \<not> match_at (char_before None before) (m @ after) m after)"
  proof
    assume e: "extract_all_ips t = []"
    then have f: "findall t = []"
      using extract_all_ips_set [of t] by simp
    show "\<forall>before m after. t = before @ m @ after \<longrightarrow>
         \<not> match_at (char_before None before) (m @ after) m after"
    proof (intro allI impI notI)
      fix before m after
      assume t: "t = before @ m @ after"
        and ma: "match_at (char_before None before) (m @ after) m after"
      have "scan None (before @ m @ after) (findall t)"
        using findall_scan [of t] t by simp
      from scan_finds [OF this ma] f show False by simp
    qed
  next
    assume n: "\<forall>before m after. t = before @ m @ after \<longrightarrow>
         \<not> match_at (char_before None before) (m @ after) m after"
    show "extract_all_ips t = []"
    proof (rule ccontr)
      assume "extract_all_ips t \<noteq> []"
      then obtain x where "x \<in> set (findall t)"
        unfolding extract_all_ips_def by (cases "findall t") auto
      from scan_occurs [OF findall_scan this] n show False by blast
    qed
  qed
next
  show "\<forall>before m after.
      t = before @ m @ after \<and> ipv4_shape m \<and>
      (before = [] \<or> (\<not> is_word (last before) \<and> last before \<noteq> CHR ''.'')) \<and>
      (after = [] \<or> \<not> is_word (hd after)) \<longrightarrow>
      m \<in> set (extract_all_ips t)"
  proof (intro allI impI)
    fix before m after
    assume a: "t = before @ m @ after \<and> ipv4_shape m \<and>
      (before = [] \<or> (\<not> is_word (last before) \<and> last before \<noteq> CHR ''.'')) \<and>
      (after = [] \<or> \<not> is_word (hd after))"
    then have sc: "scan None (before @ m @ after) (findall t)"
      using findall_scan [of t] by simp
    have "m \<in> set (findall t)"
      using a by (intro scan_delimited [OF sc]) simp_all
    then show "m \<in> set (extract_all_ips t)"
      by (simp add: extract_all_ips_set)
  qed
next
  show "extract_all_ips [] = []"
    by (simp add: extract_all_ips_def findall_def)
next
  show "extract_all_ips ''999.999.999.999'' = [''999.999.999.999'']"
    by (rule extract_all_ips_999)
qed

theorem extract_all_ips_contract_witness:
  "set (extract_all_ips ''lo0 10.0.0.2 up 10.0.0.2 te 300.1.1.7'') = {''10.0.0.2'', ''300.1.1.7''} \<and>
   ipv4_shape ''300.1.1.7'' \<and>
   ''10.0.0.2'' \<in> set (extract_all_ips (''lo0 '' @ ''10.0.0.2'' @ '' up 10.0.0.2 te 300.1.1.7'')) \<and>
   extract_all_ips ''no address here: 1.2.3 and 1234.5.6.7'' = [] \<and>
   \<not> match_at (char_before None ''1'') (''234.5.6.7'' @ []) ''234.5.6.7'' []"
proof -
  let ?t = "''lo0 10.0.0.2 up 10.0.0.2 te 300.1.1.7''"
  let ?n = "''no address here: 1.2.3 and 1234.5.6.7''"
  note T = extract_all_ips_contract [of ?t]
  have e: "extract_all_ips ?t = [''10.0.0.2'', ''300.1.1.7'']"
    by code_simp
  have n: "extract_all_ips ?n = []"
    by code_simp
  have "\<forall>x \<in> set (extract_all_ips ?t). ipv4_shape x \<and>
      (\<exists>before after. ?t = before @ x @ after \<and>
         match_at (char_before None before) (x @ after) x after)"
    by (rule T [THEN conjunct2, THEN conjunct2, THEN conjunct1])
  then have s: "ipv4_shape ''300.1.1.7''"
    unfolding e by simp
  have sh: "ipv4_shape (''10'' @ ''.'' @ ''0'' @ ''.'' @ ''0'' @ ''.'' @ ''2'')"
    by (rule ipv4_shapeI) (simp_all add: is_digit_def between_def)
  have hyp: "''lo0 '' @ ''10.0.0.2'' @ '' up 10.0.0.2 te 300.1.1.7'' =
        ''lo0 '' @ ''10.0.0.2'' @ '' up 10.0.0.2 te 300.1.1.7'' \<and>
      ipv4_shape ''10.0.0.2'' \<and>
      (''lo0 '' = [] \<or> (\<not> is_word (last ''lo0 '') \<and> last ''lo0 '' \<noteq> CHR ''.'')) \<and>
      ('' up 10.0.0.2 te 300.1.1.7'' = [] \<or> \<not> is_word (hd '' up 10.0.0.2 te 300.1.1.7''))"
    using sh by (simp add: is_word_def between_def)
  have c: "''10.0.0.2'' \<in>
      set (extract_all_ips (''lo0 '' @ ''10.0.0.2'' @ '' up 10.0.0.2 te 300.1.1.7''))"
    using extract_all_ips_contract
            [of "''lo0 '' @ ''10.0.0.2'' @ '' up 10.0.0.2 te 300.1.1.7''",
             THEN conjunct2, THEN conjunct2, THEN conjunct2, THEN conjunct2, THEN conjunct1,
             rule_format, OF hyp] .
  have d: "?n = ''no address here: 1.2.3 and 1'' @ ''234.5.6.7'' @ []"
    by simp
  have "\<forall>before m after. ?n = before @ m @ after \<longrightarrow>
         \<not> match_at (char_before None before) (m @ after) m after"
    using extract_all_ips_contract [of ?n, THEN conjunct2, THEN conjunct2, THEN conjunct2,
            THEN conjunct1] n by blast
  from this [rule_format, OF d]
  have m: "\<not> match_at (char_before None ''1'') (''234.5.6.7'' @ []) ''234.5.6.7'' []"
    by (simp add: char_before_def)
  from e s c n m show ?thesis
    by simp
qed

text \<open>
  Two substrings of the four-group shape that are not returned: \<open>2.3.4.5\<close> in
  \<open>1.2.3.4.5\<close> begins inside the match \<open>1.2.3.4\<close>, which the scan has taken before;
  \<open>1.2.3.4\<close> in \<open>x1.2.3.4\<close> begins behind a letter, where there is no word boundary.
\<close>

theorem extract_all_ips_not_every_substring:
  "ipv4_shape ''2.3.4.5'' \<and> substring ''2.3.4.5'' ''1.2.3.4.5'' \<and>
   extract_all_ips ''1.2.3.4.5'' = [''1.2.3.4''] \<and>
   ipv4_shape ''1.2.3.4'' \<and> substring ''1.2.3.4'' ''x1.2.3.4'' \<and>
   extract_all_ips ''x1.2.3.4'' = []"
proof -
  have "ipv4_shape (''2'' @ ''.'' @ ''3'' @ ''.'' @ ''4'' @ ''.'' @ ''5'')"
    by (rule ipv4_shapeI) (simp_all add: is_digit_def between_def)
  moreover have "ipv4_shape (''1'' @ ''.'' @ ''2'' @ ''.'' @ ''3'' @ ''.'' @ ''4'')"
    by (rule ipv4_shapeI) (simp_all add: is_digit_def between_def)
  moreover have "''1.2.3.4.5'' = ''1.'' @ ''2.3.4.5'' @ []" by simp
  then have "substring ''2.3.4.5'' ''1.2.3.4.5''"
    unfolding substring_def by blast
  moreover have "''x1.2.3.4'' = ''x'' @ ''1.2.3.4'' @ []" by simp
  then have "substring ''1.2.3.4'' ''x1.2.3.4''"
    unfolding substring_def by blast
  moreover have "extract_all_ips ''1.2.3.4.5'' = [''1.2.3.4'']" by code_simp
  moreover have "extract_all_ips ''x1.2.3.4'' = []" by code_simp
  ultimately show ?thesis by simp
qed

section \<open>The worker, piece by piece and as a whole\<close>

lemma set_set_add [simp]: "set (set_add x s) = insert x (set s)"
  by auto

lemma distinct_set_add [simp]: "distinct s \<Longrightarrow> distinct (set_add x s)"
  by auto

lemma set_set_update [simp]: "set (set_update s xs) = set s \<union> set xs"
  unfolding set_update_def by (induction xs arbitrary: s) auto

lemma distinct_set_update [simp]: "distinct s \<Longrightarrow> distinct (set_update s xs)"
  unfolding set_update_def by (induction xs arbitrary: s) auto

lemma set_update_Nil [simp]: "set_update s [] = s"
  by (simp add: set_update_def)

lemma set_set_diff [simp]: "set (set_diff xs ys) = set xs - set ys"
  by (auto simp: set_diff_def)

lemma set_diff_Nil [simp]: "set_diff [] ys = []"
  by (simp add: set_diff_def)

lemma shared_simps [simp]:
  "visited_global (log_add lg s) = visited_global s"
  "results_global (log_add lg s) = results_global s"
  "logged (log_add lg s) = logged s @ lg"
  "visited_global (visit ip s) = set_add ip (visited_global s)"
  "results_global (visit ip s) = results_global s"
  "logged (visit ip s) = logged s"
  "visited_global (record_device r s) = visited_global s"
  "results_global (record_device r s) = results_global s @ [r]"
  "logged (record_device r s) = logged s"
  by (simp_all add: log_add_def visit_def record_device_def)

text \<open>Running the four pieces of a worker one after the other, with no other thread
  in between, is \<open>discover_single\<close>.\<close>

lemma piece_Done [simp]: "piece w creds (Done r, s) = (Done r, s)"
  by (simp add: piece_def)

lemma worker_alone:
  "piece w creds (piece w creds (piece w creds (piece w creds (Queued ip, s)))) =
     (Done (fst (discover_single w ip creds s)), snd (discover_single w ip creds s))"
  by (simp add: piece_def discover_single_def Let_def
           split: prod.splits option.splits sum.splits)

lemma four_pieces_Done:
  "\<exists>r s'. piece w creds (piece w creds (piece w creds (piece w creds (wk, s)))) = (Done r, s')"
  by (cases wk) (simp_all add: piece_def Let_def split: prod.splits option.splits sum.splits)

section \<open>Properties of single-node discovery\<close>

text \<open>
  Claim C8. \<open>discover_single\<close> on an address that is already in the visited set returns
  the empty neighbour set and no record, and leaves the visited set and the results
  collection as they were (it writes one debug entry to the log).
\<close>

theorem discover_single_visited:
  assumes "ip \<in> set (visited_global s)"
  shows "discover_single w ip creds s =
           (Inr ([], []), s\<lparr>logged := logged s @ [(DEBUG, ip @ '' already visited, skipping'')]\<rparr>)
         \<and> visited_global (snd (discover_single w ip creds s)) = visited_global s
         \<and> results_global (snd (discover_single w ip creds s)) = results_global s"
  using assms by (simp add: discover_single_def log_add_def)

theorem discover_single_visited_witness:
  "''10.0.0.5'' \<in> set (visited_global (initial_shared\<lparr>visited_global := [''10.0.0.5'']\<rparr>)) \<and>
   fst (discover_single xe_world ''10.0.0.5'' lab_creds
          (initial_shared\<lparr>visited_global := [''10.0.0.5'']\<rparr>)) = Inr ([], []) \<and>
   results_global (snd (discover_single xe_world ''10.0.0.5'' lab_creds
          (initial_shared\<lparr>visited_global := [''10.0.0.5'']\<rparr>))) = []"
proof -
  have v: "''10.0.0.5'' \<in> set (visited_global (initial_shared\<lparr>visited_global := [''10.0.0.5'']\<rparr>))"
    by simp
  from discover_single_visited [OF v, of xe_world lab_creds] v
  show ?thesis by (simp add: initial_shared_def)
qed

text \<open>
  Claim C2. \<open>PLATFORM_MAPPING\<close> sends \<open>cisco_xe\<close> and \<open>cisco_xr\<close> to \<open>cisco_ios\<close>, but
  \<open>discover_single\<close> never consults it: it looks the detector's raw identifier up in
  \<open>VENDOR_COMMANDS\<close>, where \<open>cisco_xe\<close> is no key. A device detected as \<open>cisco_xe\<close> is
  skipped as unsupported: no session is opened, no record is made, no command is sent.
\<close>

theorem cisco_xe_is_skipped:
  "map_of PLATFORM_MAPPING ''cisco_xe'' = Some ''cisco_ios'' \<and>
   map_of PLATFORM_MAPPING ''cisco_xr'' = Some ''cisco_ios'' \<and>
   fst (detect_device_type xe_world ''10.0.0.5'' lab_creds) = Inr (Some ''cisco_xe'') \<and>
   discover_single xe_world ''10.0.0.5'' lab_creds initial_shared =
     (Inr ([], []),
      \<lparr>visited_global = [''10.0.0.5''], results_global = [],
       logged = [(INFO, ''Discovering 10.0.0.5''),
                 (INFO, ''Detected device type for 10.0.0.5: cisco_xe''),
                 (WARNING, ''Skipping 10.0.0.5: unsupported or undetected device type '' @
                           [CHR 0x27] @ ''cisco_xe'' @ [CHR 0x27])]\<rparr>)"
  by (simp add: PLATFORM_MAPPING_def VENDOR_COMMANDS_def discover_single_def
        detect_device_type_def xe_world_def network_def host_of_def lab_creds_def
        get_device_cred_def base_params_def initial_shared_def show_opt_def log_add_def
        visit_def)

section \<open>Properties of the persistence step\<close>

text \<open>
  Claim C9, as the source has it. With at least one record, and when neither opening
  the file nor writing to it nor closing it raises, \<open>save_to_csv\<close> leaves in the file
  the header row \<open>ip, device_type, hostname\<close> (the keys of the first record) followed
  by one row per record, in order, and logs the export. With no record it touches no
  file and logs a warning. When opening the file raises, the file system is as before;
  when a later operation raises, the file has been created or truncated and holds what
  the failed operation left of the rows; in both cases the exception is caught and
  logged as an error. No other file is touched, and a file is touched only if there is
  a record.
\<close>

theorem save_to_csv_contract:
  "(results \<noteq> [] \<and> open_error fs filename = None \<and>
    write_error fs filename ([''ip'', ''device_type'', ''hostname''] # map row_of results) = None
    \<longrightarrow>
      files (fst (save_to_csv results filename (fs, lg))) filename =
        Some ([''ip'', ''device_type'', ''hostname''] # map row_of results) \<and>
      length (map row_of results) = length results \<and>
      snd (save_to_csv results filename (fs, lg)) =
        lg @ [(INFO, ''Exported discovered devices to '' @ filename)]) \<and>
   (results = [] \<longrightarrow>
      save_to_csv results filename (fs, lg) =
        (fs, lg @ [(WARNING, ''No devices discovered, skipping CSV export'')])) \<and>
   (\<forall>e. results \<noteq> [] \<and> open_error fs filename = Some e \<longrightarrow>
      save_to_csv results filename (fs, lg) =
        (fs, lg @ [(ERROR, ''Failed to write CSV file '' @ [CHR 0x27] @ filename @ [CHR 0x27] @
                           '': '' @ str e)])) \<and>
   (\<forall>e left. results \<noteq> [] \<and> open_error fs filename = None \<and>
      write_error fs filename ([''ip'', ''device_type'', ''hostname''] # map row_of results) =
        Some (e, left) \<longrightarrow>
      save_to_csv results filename (fs, lg) =
        (fs\<lparr>files := (files fs)(filename \<mapsto> left)\<rparr>,
         lg @ [(ERROR, ''Failed to write CSV file '' @ [CHR 0x27] @ filename @ [CHR 0x27] @
                       '': '' @ str e)])) \<and>
   (\<forall>name. name \<noteq> filename \<longrightarrow>
      files (fst (save_to_csv results filename (fs, lg))) name = files fs name) \<and>
   (fst (save_to_csv results filename (fs, lg)) \<noteq> fs \<longrightarrow> results \<noteq> [])"
proof (cases results)
  case Nil
  then show ?thesis by (simp add: save_to_csv_def)
next
  case (Cons first rest)
  show ?thesis
  proof (cases "open_error fs filename")
    case (Some e)
    with Cons show ?thesis by (simp add: save_to_csv_def keys_def Let_def)
  next
    case None
    show ?thesis
    proof (cases "write_error fs filename
                    ([''ip'', ''device_type'', ''hostname''] # map row_of results)")
      case n: None
      with Cons None show ?thesis by (simp add: save_to_csv_def keys_def Let_def)
    next
      case s: (Some x)
      obtain e left where "x = (e, left)" by (cases x)
      with Cons None s show ?thesis by (simp add: save_to_csv_def keys_def Let_def)
    qed
  qed
qed

theorem save_to_csv_contract_witness:
  "files (fst (save_to_csv [core_record] ''discovered_devices.csv'' (writable_fs, [])))
     ''discovered_devices.csv'' =
     Some [[''ip'', ''device_type'', ''hostname''], [''10.0.0.1'', ''cisco_ios'', ''core1'']] \<and>
   save_to_csv [] ''discovered_devices.csv'' (writable_fs, []) =
     (writable_fs, [(WARNING, ''No devices discovered, skipping CSV export'')]) \<and>
   save_to_csv [core_record] ''discovered_devices.csv'' (read_only_fs, []) =
     (read_only_fs, [(ERROR, ''Failed to write CSV file '' @ [CHR 0x27] @
        ''discovered_devices.csv'' @ [CHR 0x27] @ '': [Errno 13] Permission denied'')]) \<and>
   snd (save_to_csv [core_record] ''discovered_devices.csv'' (full_fs, [])) =
     [(ERROR, ''Failed to write CSV file '' @ [CHR 0x27] @
        ''discovered_devices.csv'' @ [CHR 0x27] @ '': [Errno 28] No space left on device'')]"
proof -
  let ?name = "''discovered_devices.csv''"
  let ?rows = "[''ip'', ''device_type'', ''hostname''] # map row_of [core_record]"
  have a: "[core_record] \<noteq> [] \<and> open_error writable_fs ?name = None \<and>
      write_error writable_fs ?name ?rows = None"
    by (simp add: writable_fs_def)
  have b: "[core_record] \<noteq> [] \<and>
      open_error read_only_fs ?name = Some (Exception ''[Errno 13] Permission denied'')"
    by (simp add: read_only_fs_def)
  have c: "[core_record] \<noteq> [] \<and> open_error full_fs ?name = None \<and>
      write_error full_fs ?name ?rows =
        Some (Exception ''[Errno 28] No space left on device'', take 1 ?rows)"
    by (simp add: full_fs_def)
  from a save_to_csv_contract [of "[core_record]" writable_fs ?name "[]"]
  have "files (fst (save_to_csv [core_record] ?name (writable_fs, []))) ?name = Some ?rows"
    by blast
  moreover from save_to_csv_contract [of "[]" writable_fs ?name "[]"]
  have "save_to_csv [] ?name (writable_fs, []) =
     (writable_fs, [(WARNING, ''No devices discovered, skipping CSV export'')])"
    by simp
  moreover from b save_to_csv_contract [of "[core_record]" read_only_fs ?name "[]"]
  have "save_to_csv [core_record] ?name (read_only_fs, []) =
     (read_only_fs, [] @ [(ERROR, ''Failed to write CSV file '' @ [CHR 0x27] @ ?name @
        [CHR 0x27] @ '': '' @ str (Exception ''[Errno 13] Permission denied''))])"
    by blast
  moreover from c save_to_csv_contract [of "[core_record]" full_fs ?name "[]"]
  have "save_to_csv [core_record] ?name (full_fs, []) =
     (full_fs\<lparr>files := (files full_fs)(?name \<mapsto> take 1 ?rows)\<rparr>,
      [] @ [(ERROR, ''Failed to write CSV file '' @ [CHR 0x27] @ ?name @
        [CHR 0x27] @ '': '' @ str (Exception ''[Errno 28] No space left on device''))])"
    by blast
  ultimately show ?thesis
    by (simp add: row_of_def core_record_def)
qed

text \<open>
  One record was discovered. The header row that is written names the fields \<open>ip\<close>,
  \<open>device_type\<close>, \<open>hostname\<close>, not \<open>Address\<close>, \<open>PlatformId\<close>, \<open>Hostname\<close>. When the file
  cannot be opened, there is no file; when the device is full after the header row, the
  file has no row for the record.
\<close>

theorem save_to_csv_header:
  "files (fst (save_to_csv [core_record] ''discovered_devices.csv'' (writable_fs, [])))
     ''discovered_devices.csv'' =
     Some [[''ip'', ''device_type'', ''hostname''], [''10.0.0.1'', ''cisco_ios'', ''core1'']] \<and>
   [''ip'', ''device_type'', ''hostname''] \<noteq> [''Address'', ''PlatformId'', ''Hostname''] \<and>
   files (fst (save_to_csv [core_record] ''discovered_devices.csv'' (read_only_fs, [])))
     ''discovered_devices.csv'' = None \<and>
   files (fst (save_to_csv [core_record] ''discovered_devices.csv'' (full_fs, [])))
     ''discovered_devices.csv'' = Some [[''ip'', ''device_type'', ''hostname'']]"
  by (simp add: save_to_csv_def writable_fs_def read_only_fs_def full_fs_def keys_def
        row_of_def core_record_def)

section \<open>The Juniper LLDP fallback\<close>

lemma split_from_nonempty:
  "cur \<noteq> [] \<or> (\<exists>c \<in> set s. \<not> is_space c) \<Longrightarrow> split_from cur s \<noteq> []"
  by (induction s arbitrary: cur) auto

lemma strip_nonempty:
  assumes "strip s \<noteq> []"
  shows "\<exists>c \<in> set s. \<not> is_space c"
proof (rule ccontr)
  assume "\<not> (\<exists>c \<in> set s. \<not> is_space c)"
  then have none: "dropWhile is_space s = []"
    by simp
  have "strip s = []"
    by (simp only: none strip_def strip_chars_def rev.simps dropWhile.simps)
  with assms show False by simp
qed

lemma split_nonempty: "strip s \<noteq> [] \<Longrightarrow> split s \<noteq> []"
  unfolding split_def by (rule split_from_nonempty) (simp add: strip_nonempty)

lemma parse_fold:
  "set (foldl (\<lambda>interfaces line.
              if startswith line ''Local Interface'' \<or> strip line = [] then interfaces
              else (case split line of [] \<Rightarrow> interfaces | p # _ \<Rightarrow> set_add p interfaces))
         acc ls) =
   set acc \<union> {p. \<exists>line rest. line \<in> set ls \<and> names_line line \<and> split line = p # rest}"
proof (induction ls arbitrary: acc)
  case Nil
  then show ?case by simp
next
  case (Cons l ls)
  show ?case
    unfolding foldl_Cons Cons.IH
    by (cases "split l") (auto simp: names_line_def)
qed

lemma parse_fold_distinct:
  "distinct acc \<Longrightarrow>
   distinct (foldl (\<lambda>interfaces line.
              if startswith line ''Local Interface'' \<or> strip line = [] then interfaces
              else (case split line of [] \<Rightarrow> interfaces | p # _ \<Rightarrow> set_add p interfaces))
         acc ls)"
proof (induction ls arbitrary: acc)
  case Nil
  then show ?case by simp
next
  case (Cons l ls)
  then show ?case
    by (cases "split l") auto
qed

lemma parse_juniper_lldp_interfaces_set:
  "set (parse_juniper_lldp_interfaces output) =
     {p. \<exists>line rest. line \<in> set (splitlines (strip output)) \<and> names_line line \<and>
                      split line = p # rest}"
  unfolding parse_juniper_lldp_interfaces_def parse_fold by simp

lemma parse_juniper_lldp_interfaces_distinct:
  "distinct (parse_juniper_lldp_interfaces output)"
  unfolding parse_juniper_lldp_interfaces_def by (rule parse_fold_distinct) simp

lemma UN_lessThan_Suc_shift:
  "(\<Union>k<Suc m. f k) = f 0 \<union> (\<Union>k<m. f (Suc k))"
  by (simp add: lessThan_Suc_eq_insert_0)

lemma per_interface_all:
  assumes "\<forall>k<length ifaces.
     send_command net_connect (n + k) (''show lldp neighbors interface '' @ ifaces ! k) = Inr (outs k)"
  shows "\<exists>found. per_interface net_connect ip ifaces (neighbor_ips, n, lg) =
                   (found, n + length ifaces, lg) \<and>
           set found = set neighbor_ips \<union> (\<Union>k<length ifaces. set (extract_all_ips (outs k)))"
  using assms
proof (induction ifaces arbitrary: neighbor_ips n outs)
  case Nil
  then show ?case by simp
next
  case (Cons iface rest)
  from Cons.prems have first:
    "send_command net_connect n (''show lldp neighbors interface '' @ iface) = Inr (outs 0)"
    by (metis add.right_neutral length_greater_0_conv list.discI nth_Cons_0)
  have others: "\<forall>k<length rest.
     send_command net_connect (Suc n + k) (''show lldp neighbors interface '' @ rest ! k) =
       Inr ((outs \<circ> Suc) k)"
  proof (intro allI impI)
    fix k assume "k < length rest"
    then have "Suc k < length (iface # rest)" by simp
    with Cons.prems have
      "send_command net_connect (n + Suc k)
         (''show lldp neighbors interface '' @ (iface # rest) ! Suc k) = Inr (outs (Suc k))"
      by blast
    then show "send_command net_connect (Suc n + k)
         (''show lldp neighbors interface '' @ rest ! k) = Inr ((outs \<circ> Suc) k)"
      by simp
  qed
  from Cons.IH [OF others, of "set_update neighbor_ips (extract_all_ips (outs 0))"]
  obtain found where
    f: "per_interface net_connect ip rest
          (set_update neighbor_ips (extract_all_ips (outs 0)), Suc n, lg) =
        (found, Suc n + length rest, lg)"
       "set found = set (set_update neighbor_ips (extract_all_ips (outs 0))) \<union>
          (\<Union>k<length rest. set (extract_all_ips ((outs \<circ> Suc) k)))"
    by blast
  have "per_interface net_connect ip (iface # rest) (neighbor_ips, n, lg) =
          (found, n + length (iface # rest), lg)"
    using first f(1) by simp
  moreover have "set found =
      set neighbor_ips \<union> (\<Union>k<length (iface # rest). set (extract_all_ips (outs k)))"
    using f(2) by (simp add: UN_lessThan_Suc_shift Un_assoc)
  ultimately show ?case by blast
qed

lemma per_interface_stops:
  assumes "k < length ifaces"
    and "\<forall>j<k.
     send_command net_connect (n + j) (''show lldp neighbors interface '' @ ifaces ! j) = Inr (outs j)"
    and "send_command net_connect (n + k) (''show lldp neighbors interface '' @ ifaces ! k) =
           Inl inner_e"
  shows "\<exists>found. per_interface net_connect ip ifaces (neighbor_ips, n, lg) =
           (found, Suc (n + k),
            lg @ [(ERROR, ''Fallback LLDP per-interface also failed on '' @ ip @ '': '' @
                          str inner_e)]) \<and>
           set found = set neighbor_ips \<union> (\<Union>j<k. set (extract_all_ips (outs j)))"
  using assms
proof (induction ifaces arbitrary: neighbor_ips n outs k)
  case Nil
  then show ?case by simp
next
  case (Cons iface rest)
  show ?case
  proof (cases k)
    case 0
    with Cons.prems(3) show ?thesis by simp
  next
    case (Suc k')
    from Cons.prems(2) Suc have first:
      "send_command net_connect n (''show lldp neighbors interface '' @ iface) = Inr (outs 0)"
      by (metis add.right_neutral nth_Cons_0 zero_less_Suc)
    have len: "k' < length rest"
      using Cons.prems(1) Suc by simp
    have others: "\<forall>j<k'.
       send_command net_connect (Suc n + j) (''show lldp neighbors interface '' @ rest ! j) =
         Inr ((outs \<circ> Suc) j)"
    proof (intro allI impI)
      fix j assume "j < k'"
      then have "Suc j < k" using Suc by simp
      with Cons.prems(2) have
        "send_command net_connect (n + Suc j)
           (''show lldp neighbors interface '' @ (iface # rest) ! Suc j) = Inr (outs (Suc j))"
        by blast
      then show "send_command net_connect (Suc n + j)
           (''show lldp neighbors interface '' @ rest ! j) = Inr ((outs \<circ> Suc) j)"
        by simp
    qed
    have last: "send_command net_connect (Suc n + k')
        (''show lldp neighbors interface '' @ rest ! k') = Inl inner_e"
      using Cons.prems(3) Suc by simp
    from Cons.IH [OF len others last, of "set_update neighbor_ips (extract_all_ips (outs 0))"]
    obtain found where
      f: "per_interface net_connect ip rest
            (set_update neighbor_ips (extract_all_ips (outs 0)), Suc n, lg) =
          (found, Suc (Suc n + k'),
           lg @ [(ERROR, ''Fallback LLDP per-interface also failed on '' @ ip @ '': '' @
                         str inner_e)])"
         "set found = set (set_update neighbor_ips (extract_all_ips (outs 0))) \<union>
            (\<Union>j<k'. set (extract_all_ips ((outs \<circ> Suc) j)))"
      by blast
    have "per_interface net_connect ip (iface # rest) (neighbor_ips, n, lg) =
          (found, Suc (n + k),
           lg @ [(ERROR, ''Fallback LLDP per-interface also failed on '' @ ip @ '': '' @
                         str inner_e)])"
      using first f(1) Suc by simp
    moreover have "set found =
        set neighbor_ips \<union> (\<Union>j<k. set (extract_all_ips (outs j)))"
      using f(2) Suc by (simp add: UN_lessThan_Suc_shift Un_assoc)
    ultimately show ?thesis by blast
  qed
qed

lemma set_update_append:
  "distinct xs \<Longrightarrow> set xs \<inter> set acc = {} \<Longrightarrow> set_update acc xs = acc @ xs"
  unfolding set_update_def
  by (induction xs arbitrary: acc) auto

lemma set_update_extract [simp]: "set_update [] (extract_all_ips output) = extract_all_ips output"
  using set_update_append [of "extract_all_ips output" "[]"]
  by (simp add: extract_all_ips_def)

lemma set_iter_simps [simp]:
  "set (set_iter w xs) = set xs"
  "length (set_iter w xs) = length xs"
  "distinct (set_iter w xs) = distinct xs"
  by (simp_all add: set_iter_def)

lemma query_neighbors_juniper:
  "query_neighbors w net_connect ip ''juniper'' =
     (case juniper_lldp w net_connect ip ([], 0, []) of (found, n, lg) \<Rightarrow> (found, lg))"
  by (simp add: query_neighbors_def VENDOR_COMMANDS_def get_or_def run_proto_def dict_get_def)

lemma juniper_first_ok:
  "send_command net_connect 0 ''show lldp neighbors'' = Inr output \<Longrightarrow>
   juniper_lldp w net_connect ip ([], 0, []) = (extract_all_ips output, 1, [])"
  by (simp add: juniper_lldp_def)

lemma juniper_other_error:
  "send_command net_connect 0 ''show lldp neighbors'' = Inl e \<Longrightarrow>
   \<not> contains ''syntax error'' (lower (str e)) \<Longrightarrow>
   juniper_lldp w net_connect ip ([], 0, []) =
     ([], 1, [(ERROR, ''LLDP detail failed on '' @ ip @ '': '' @ str e)])"
  by (simp add: juniper_lldp_def)

lemma juniper_summary_error:
  "send_command net_connect 0 ''show lldp neighbors'' = Inl e \<Longrightarrow>
   contains ''syntax error'' (lower (str e)) \<Longrightarrow>
   send_command net_connect 1 ''show lldp neighbors'' = Inl inner_e \<Longrightarrow>
   juniper_lldp w net_connect ip ([], 0, []) =
     ([], 2, [(WARNING, ''Falling back to per-interface LLDP for '' @ ip),
              (ERROR, ''Fallback LLDP per-interface also failed on '' @ ip @ '': '' @
                      str inner_e)])"
  by (simp add: juniper_lldp_def)

lemma juniper_fallback_all:
  assumes "send_command net_connect 0 ''show lldp neighbors'' = Inl e"
    and "contains ''syntax error'' (lower (str e))"
    and "send_command net_connect 1 ''show lldp neighbors'' = Inr summary"
    and "\<forall>k<length (set_iter w (parse_juniper_lldp_interfaces summary)).
           send_command net_connect (2 + k)
             (''show lldp neighbors interface '' @
              set_iter w (parse_juniper_lldp_interfaces summary) ! k) =
           Inr (outs k)"
  shows "\<exists>found. juniper_lldp w net_connect ip ([], 0, []) =
           (found, 2 + length (parse_juniper_lldp_interfaces summary),
            [(WARNING, ''Falling back to per-interface LLDP for '' @ ip)]) \<and>
         set found =
           (\<Union>k<length (parse_juniper_lldp_interfaces summary). set (extract_all_ips (outs k)))"
proof -
  from per_interface_all [OF assms(4), of ip "[]"
         "[(WARNING, ''Falling back to per-interface LLDP for '' @ ip)]"]
  obtain found where
    "per_interface net_connect ip (set_iter w (parse_juniper_lldp_interfaces summary))
       ([], 2, [(WARNING, ''Falling back to per-interface LLDP for '' @ ip)]) =
     (found, 2 + length (parse_juniper_lldp_interfaces summary),
      [(WARNING, ''Falling back to per-interface LLDP for '' @ ip)])"
    "set found =
       (\<Union>k<length (parse_juniper_lldp_interfaces summary). set (extract_all_ips (outs k)))"
    by auto
  with assms(1-3) show ?thesis
    by (simp add: juniper_lldp_def numeral_2_eq_2)
qed

lemma UN_nth: "(\<Union>k<length xs. f (xs ! k)) = (\<Union>x \<in> set xs. f x)"
proof
  show "(\<Union>k<length xs. f (xs ! k)) \<subseteq> (\<Union>x \<in> set xs. f x)"
    using nth_mem by fastforce
  show "(\<Union>x \<in> set xs. f x) \<subseteq> (\<Union>k<length xs. f (xs ! k))"
    by (fastforce simp: in_set_conv_nth)
qed

lemma juniper_fallback_any_order:
  assumes "send_command net_connect 0 ''show lldp neighbors'' = Inl e"
    and "contains ''syntax error'' (lower (str e))"
    and "send_command net_connect 1 ''show lldp neighbors'' = Inr summary"
    and "\<forall>iface \<in> set (parse_juniper_lldp_interfaces summary). \<forall>n\<ge>2.
           send_command net_connect n (''show lldp neighbors interface '' @ iface) =
           Inr (out iface)"
  shows "\<exists>found. juniper_lldp w net_connect ip ([], 0, []) =
           (found, 2 + length (parse_juniper_lldp_interfaces summary),
            [(WARNING, ''Falling back to per-interface LLDP for '' @ ip)]) \<and>
         set found =
           (\<Union>iface \<in> set (parse_juniper_lldp_interfaces summary).
              set (extract_all_ips (out iface)))"
proof -
  let ?ifaces = "set_iter w (parse_juniper_lldp_interfaces summary)"
  have "\<forall>k<length ?ifaces.
           send_command net_connect (2 + k) (''show lldp neighbors interface '' @ ?ifaces ! k) =
           Inr (out (?ifaces ! k))"
  proof (intro allI impI)
    fix k assume "k < length ?ifaces"
    then have "?ifaces ! k \<in> set ?ifaces" by (rule nth_mem)
    then have "?ifaces ! k \<in> set (parse_juniper_lldp_interfaces summary)" by simp
    with assms(4) show "send_command net_connect (2 + k)
        (''show lldp neighbors interface '' @ ?ifaces ! k) = Inr (out (?ifaces ! k))"
      by simp
  qed
  from juniper_fallback_all [OF assms(1-3) this, of ip]
  obtain found where f: "juniper_lldp w net_connect ip ([], 0, []) =
           (found, 2 + length (parse_juniper_lldp_interfaces summary),
            [(WARNING, ''Falling back to per-interface LLDP for '' @ ip)])"
    "set found = (\<Union>k<length (parse_juniper_lldp_interfaces summary).
        set (extract_all_ips (out (?ifaces ! k))))"
    by blast
  have "(\<Union>k<length ?ifaces. set (extract_all_ips (out (?ifaces ! k)))) =
        (\<Union>iface \<in> set ?ifaces. set (extract_all_ips (out iface)))"
    by (rule UN_nth)
  then have "set found = (\<Union>iface \<in> set (parse_juniper_lldp_interfaces summary).
              set (extract_all_ips (out iface)))"
    using f(2) by simp
  with f(1) show ?thesis by blast
qed

lemma juniper_fallback_stops:
  assumes "send_command net_connect 0 ''show lldp neighbors'' = Inl e"
    and "contains ''syntax error'' (lower (str e))"
    and "send_command net_connect 1 ''show lldp neighbors'' = Inr summary"
    and "k < length (set_iter w (parse_juniper_lldp_interfaces summary))"
    and "\<forall>j<k. send_command net_connect (2 + j)
             (''show lldp neighbors interface '' @
              set_iter w (parse_juniper_lldp_interfaces summary) ! j) =
           Inr (outs j)"
    and "send_command net_connect (2 + k)
             (''show lldp neighbors interface '' @
              set_iter w (parse_juniper_lldp_interfaces summary) ! k) =
           Inl inner_e"
  shows "\<exists>found. juniper_lldp w net_connect ip ([], 0, []) =
           (found, 3 + k,
            [(WARNING, ''Falling back to per-interface LLDP for '' @ ip),
             (ERROR, ''Fallback LLDP per-interface also failed on '' @ ip @ '': '' @
                     str inner_e)]) \<and>
         set found = (\<Union>j<k. set (extract_all_ips (outs j)))"
proof -
  from per_interface_stops [OF assms(4-6), of ip "[]"
         "[(WARNING, ''Falling back to per-interface LLDP for '' @ ip)]"]
  obtain found where
    "per_interface net_connect ip (set_iter w (parse_juniper_lldp_interfaces summary))
       ([], 2, [(WARNING, ''Falling back to per-interface LLDP for '' @ ip)]) =
     (found, Suc (2 + k),
      [(WARNING, ''Falling back to per-interface LLDP for '' @ ip)] @
      [(ERROR, ''Fallback LLDP per-interface also failed on '' @ ip @ '': '' @ str inner_e)])"
    "set found = (\<Union>j<k. set (extract_all_ips (outs j)))"
    by auto
  with assms(1-3) show ?thesis
    by (simp add: juniper_lldp_def numeral_2_eq_2 numeral_3_eq_3)
qed

lemma discover_single_connected:
  assumes "ip \<notin> set (visited_global s)"
    and "fst (detect_device_type w ip creds) = Inr (Some device_type)"
    and "device_type \<noteq> []" and "map_of VENDOR_COMMANDS device_type \<noteq> None"
    and "fst (ssh_connect w ip creds device_type) = Inr (Some net_connect)"
    and "find_prompt net_connect = Inr prompt"
  shows "fst (discover_single w ip creds s) =
           Inr (fst (query_neighbors w net_connect ip device_type), [(ip, device_type)])"
    and "visited_global (snd (discover_single w ip creds s)) = set_add ip (visited_global s)"
    and "results_global (snd (discover_single w ip creds s)) =
           results_global s @ [\<lparr>rec_ip = ip, rec_device_type = device_type,
                                  rec_hostname = hostname_of prompt\<rparr>]"
proof -
  obtain dlog where d: "detect_device_type w ip creds = (Inr (Some device_type), dlog)"
    using assms(2) by (cases "detect_device_type w ip creds") simp
  obtain clog where c: "ssh_connect w ip creds device_type = (Inr (Some net_connect), clog)"
    using assms(5) by (cases "ssh_connect w ip creds device_type") simp
  obtain found qlog where q: "query_neighbors w net_connect ip device_type = (found, qlog)"
    by (cases "query_neighbors w net_connect ip device_type")
  obtain commands where t: "map_of VENDOR_COMMANDS device_type = Some commands"
    using assms(4) by blast
  show "fst (discover_single w ip creds s) =
           Inr (fst (query_neighbors w net_connect ip device_type), [(ip, device_type)])"
    using assms(1,3,6) d c q t by (simp add: discover_single_def Let_def)
  show "visited_global (snd (discover_single w ip creds s)) = set_add ip (visited_global s)"
    using assms(1,3,6) d c q t by (simp add: discover_single_def Let_def)
  show "results_global (snd (discover_single w ip creds s)) =
           results_global s @ [\<lparr>rec_ip = ip, rec_device_type = device_type,
                                  rec_hostname = hostname_of prompt\<rparr>]"
    using assms(1,3,6) d c q t by (simp add: discover_single_def Let_def)
qed

text \<open>
  Claim C3. On a device of type \<open>juniper\<close> the protocol loop skips CDP and, for LLDP, sends
  one command first (\<open>show lldp neighbors\<close>); if it returns, its addresses are the result.
  If it raises with a message that contains \<open>syntax error\<close> (in any letter case), the
  worker logs a warning and sends the summary command (the same command once more); the
  interface names are the first white-space-delimited tokens of the summary's lines that
  are neither blank nor start with \<open>Local Interface\<close>, each of them once; one detail
  command is sent per interface name, in the order in which the run goes through the
  set of names, whatever that order is; and when they all return the result is the union
  of the addresses extracted from their outputs. Every other failure (of the first
  command with another message, of the summary command, of a detail command, which ends
  the loop over the interfaces) is logged as an error and the loop goes on to its end:
  the worker returns its neighbour set and its record.
\<close>

theorem juniper_lldp_fallback:
  "query_neighbors w net_connect ip ''juniper'' =
     (case juniper_lldp w net_connect ip ([], 0, []) of (found, n, lg) \<Rightarrow> (found, lg)) \<and>
   (\<forall>output. send_command net_connect 0 ''show lldp neighbors'' = Inr output \<longrightarrow>
      juniper_lldp w net_connect ip ([], 0, []) = (extract_all_ips output, 1, [])) \<and>
   (\<forall>e summary outs.
      send_command net_connect 0 ''show lldp neighbors'' = Inl e \<and>
      contains ''syntax error'' (lower (str e)) \<and>
      send_command net_connect 1 ''show lldp neighbors'' = Inr summary \<and>
      (\<forall>k<length (set_iter w (parse_juniper_lldp_interfaces summary)).
         send_command net_connect (2 + k)
           (''show lldp neighbors interface '' @
            set_iter w (parse_juniper_lldp_interfaces summary) ! k) =
         Inr (outs k)) \<longrightarrow>
      (\<exists>found. juniper_lldp w net_connect ip ([], 0, []) =
           (found, 2 + length (parse_juniper_lldp_interfaces summary),
            [(WARNING, ''Falling back to per-interface LLDP for '' @ ip)]) \<and>
         set found =
           (\<Union>k<length (parse_juniper_lldp_interfaces summary).
              set (extract_all_ips (outs k))))) \<and>
   (\<forall>e summary out.
      send_command net_connect 0 ''show lldp neighbors'' = Inl e \<and>
      contains ''syntax error'' (lower (str e)) \<and>
      send_command net_connect 1 ''show lldp neighbors'' = Inr summary \<and>
      (\<forall>iface \<in> set (parse_juniper_lldp_interfaces summary). \<forall>n\<ge>2.
         send_command net_connect n (''show lldp neighbors interface '' @ iface) =
         Inr (out iface)) \<longrightarrow>
      (\<exists>found. juniper_lldp w net_connect ip ([], 0, []) =
           (found, 2 + length (parse_juniper_lldp_interfaces summary),
            [(WARNING, ''Falling back to per-interface LLDP for '' @ ip)]) \<and>
         set found =
           (\<Union>iface \<in> set (parse_juniper_lldp_interfaces summary).
              set (extract_all_ips (out iface))))) \<and>
   (\<forall>summary. distinct (parse_juniper_lldp_interfaces summary) \<and>
      set (parse_juniper_lldp_interfaces summary) =
        {p. \<exists>line rest. line \<in> set (splitlines (strip summary)) \<and> names_line line \<and>
                         split line = p # rest} \<and>
      distinct (set_iter w (parse_juniper_lldp_interfaces summary)) \<and>
      set (set_iter w (parse_juniper_lldp_interfaces summary)) =
        set (parse_juniper_lldp_interfaces summary) \<and>
      length (set_iter w (parse_juniper_lldp_interfaces summary)) =
        length (parse_juniper_lldp_interfaces summary)) \<and>
   (\<forall>line. names_line line \<longrightarrow> split line \<noteq> []) \<and>
   (\<forall>e. send_command net_connect 0 ''show lldp neighbors'' = Inl e \<and>
      \<not> contains ''syntax error'' (lower (str e)) \<longrightarrow>
      juniper_lldp w net_connect ip ([], 0, []) =
        ([], 1, [(ERROR, ''LLDP detail failed on '' @ ip @ '': '' @ str e)])) \<and>
   (\<forall>e inner_e.
      send_command net_connect 0 ''show lldp neighbors'' = Inl e \<and>
      contains ''syntax error'' (lower (str e)) \<and>
      send_command net_connect 1 ''show lldp neighbors'' = Inl inner_e \<longrightarrow>
      juniper_lldp w net_connect ip ([], 0, []) =
        ([], 2, [(WARNING, ''Falling back to per-interface LLDP for '' @ ip),
                 (ERROR, ''Fallback LLDP per-interface also failed on '' @ ip @ '': '' @
                         str inner_e)])) \<and>
   (\<forall>e summary outs k inner_e.
      send_command net_connect 0 ''show lldp neighbors'' = Inl e \<and>
      contains ''syntax error'' (lower (str e)) \<and>
      send_command net_connect 1 ''show lldp neighbors'' = Inr summary \<and>
      k < length (set_iter w (parse_juniper_lldp_interfaces summary)) \<and>
      (\<forall>j<k. send_command net_connect (2 + j)
           (''show lldp neighbors interface '' @
            set_iter w (parse_juniper_lldp_interfaces summary) ! j) =
         Inr (outs j)) \<and>
      send_command net_connect (2 + k)
           (''show lldp neighbors interface '' @
            set_iter w (parse_juniper_lldp_interfaces summary) ! k) =
         Inl inner_e \<longrightarrow>
      (\<exists>found. juniper_lldp w net_connect ip ([], 0, []) =
           (found, 3 + k,
            [(WARNING, ''Falling back to per-interface LLDP for '' @ ip),
             (ERROR, ''Fallback LLDP per-interface also failed on '' @ ip @ '': '' @
                     str inner_e)]) \<and>
         set found = (\<Union>j<k. set (extract_all_ips (outs j))))) \<and>
   (\<forall>creds s prompt.
      ip \<notin> set (visited_global s) \<and>
      fst (detect_device_type w ip creds) = Inr (Some ''juniper'') \<and>
      fst (ssh_connect w ip creds ''juniper'') = Inr (Some net_connect) \<and>
      find_prompt net_connect = Inr prompt \<longrightarrow>
      fst (discover_single w ip creds s) =
        Inr (fst (query_neighbors w net_connect ip ''juniper''), [(ip, ''juniper'')]))"
proof (intro conjI allI impI)
  show "query_neighbors w net_connect ip ''juniper'' =
     (case juniper_lldp w net_connect ip ([], 0, []) of (found, n, lg) \<Rightarrow> (found, lg))"
    by (rule query_neighbors_juniper)
next
  fix out
  assume "send_command net_connect 0 ''show lldp neighbors'' = Inr out"
  then show "juniper_lldp w net_connect ip ([], 0, []) = (extract_all_ips out, 1, [])"
    by (rule juniper_first_ok)
next
  fix e summary outs
  assume "send_command net_connect 0 ''show lldp neighbors'' = Inl e \<and>
      contains ''syntax error'' (lower (str e)) \<and>
      send_command net_connect 1 ''show lldp neighbors'' = Inr summary \<and>
      (\<forall>k<length (set_iter w (parse_juniper_lldp_interfaces summary)).
         send_command net_connect (2 + k)
           (''show lldp neighbors interface '' @
            set_iter w (parse_juniper_lldp_interfaces summary) ! k) =
         Inr (outs k))"
  then show "\<exists>found. juniper_lldp w net_connect ip ([], 0, []) =
           (found, 2 + length (parse_juniper_lldp_interfaces summary),
            [(WARNING, ''Falling back to per-interface LLDP for '' @ ip)]) \<and>
         set found =
           (\<Union>k<length (parse_juniper_lldp_interfaces summary).
              set (extract_all_ips (outs k)))"
    by (elim conjE) (rule juniper_fallback_all; assumption)
next
  fix e summary out
  assume "send_command net_connect 0 ''show lldp neighbors'' = Inl e \<and>
      contains ''syntax error'' (lower (str e)) \<and>
      send_command net_connect 1 ''show lldp neighbors'' = Inr summary \<and>
      (\<forall>iface \<in> set (parse_juniper_lldp_interfaces summary). \<forall>n\<ge>2.
         send_command net_connect n (''show lldp neighbors interface '' @ iface) =
         Inr (out iface))"
  then show "\<exists>found. juniper_lldp w net_connect ip ([], 0, []) =
           (found, 2 + length (parse_juniper_lldp_interfaces summary),
            [(WARNING, ''Falling back to per-interface LLDP for '' @ ip)]) \<and>
         set found =
           (\<Union>iface \<in> set (parse_juniper_lldp_interfaces summary).
              set (extract_all_ips (out iface)))"
    by (elim conjE) (rule juniper_fallback_any_order; assumption)
next
  fix summary
  show "distinct (parse_juniper_lldp_interfaces summary)"
    by (rule parse_juniper_lldp_interfaces_distinct)
  show "set (parse_juniper_lldp_interfaces summary) =
        {p. \<exists>line rest. line \<in> set (splitlines (strip summary)) \<and> names_line line \<and>
                         split line = p # rest}"
    by (rule parse_juniper_lldp_interfaces_set)
  show "distinct (set_iter w (parse_juniper_lldp_interfaces summary))"
    by (simp add: parse_juniper_lldp_interfaces_distinct)
  show "set (set_iter w (parse_juniper_lldp_interfaces summary)) =
        set (parse_juniper_lldp_interfaces summary)"
    by simp
  show "length (set_iter w (parse_juniper_lldp_interfaces summary)) =
        length (parse_juniper_lldp_interfaces summary)"
    by simp
next
  fix line
  assume "names_line line"
  then have "strip line \<noteq> []"
    unfolding names_line_def by (rule conjunct2)
  then show "split line \<noteq> []"
    by (rule split_nonempty)
next
  fix e
  assume "send_command net_connect 0 ''show lldp neighbors'' = Inl e \<and>
      \<not> contains ''syntax error'' (lower (str e))"
  then show "juniper_lldp w net_connect ip ([], 0, []) =
        ([], 1, [(ERROR, ''LLDP detail failed on '' @ ip @ '': '' @ str e)])"
    by (elim conjE) (rule juniper_other_error; assumption)
next
  fix e inner_e
  assume "send_command net_connect 0 ''show lldp neighbors'' = Inl e \<and>
      contains ''syntax error'' (lower (str e)) \<and>
      send_command net_connect 1 ''show lldp neighbors'' = Inl inner_e"
  then show "juniper_lldp w net_connect ip ([], 0, []) =
        ([], 2, [(WARNING, ''Falling back to per-interface LLDP for '' @ ip),
                 (ERROR, ''Fallback LLDP per-interface also failed on '' @ ip @ '': '' @
                         str inner_e)])"
    by (elim conjE) (rule juniper_summary_error; assumption)
next
  fix e summary outs k inner_e
  assume "send_command net_connect 0 ''show lldp neighbors'' = Inl e \<and>
      contains ''syntax error'' (lower (str e)) \<and>
      send_command net_connect 1 ''show lldp neighbors'' = Inr summary \<and>
      k < length (set_iter w (parse_juniper_lldp_interfaces summary)) \<and>
      (\<forall>j<k. send_command net_connect (2 + j)
           (''show lldp neighbors interface '' @
            set_iter w (parse_juniper_lldp_interfaces summary) ! j) =
         Inr (outs j)) \<and>
      send_command net_connect (2 + k)
           (''show lldp neighbors interface '' @
            set_iter w (parse_juniper_lldp_interfaces summary) ! k) =
         Inl inner_e"
  then show "\<exists>found. juniper_lldp w net_connect ip ([], 0, []) =
           (found, 3 + k,
            [(WARNING, ''Falling back to per-interface LLDP for '' @ ip),
             (ERROR, ''Fallback LLDP per-interface also failed on '' @ ip @ '': '' @
                     str inner_e)]) \<and>
         set found = (\<Union>j<k. set (extract_all_ips (outs j)))"
    by (elim conjE) (rule juniper_fallback_stops; assumption)
next
  fix creds and s :: shared and prompt
  assume "ip \<notin> set (visited_global s) \<and>
      fst (detect_device_type w ip creds) = Inr (Some ''juniper'') \<and>
      fst (ssh_connect w ip creds ''juniper'') = Inr (Some net_connect) \<and>
      find_prompt net_connect = Inr prompt"
  then have a: "ip \<notin> set (visited_global s)"
    and b: "fst (detect_device_type w ip creds) = Inr (Some ''juniper'')"
    and c: "fst (ssh_connect w ip creds ''juniper'') = Inr (Some net_connect)"
    and d: "find_prompt net_connect = Inr prompt"
    by simp_all
  have j: "map_of VENDOR_COMMANDS ''juniper'' \<noteq> None"
    by (simp add: VENDOR_COMMANDS_def)
  have n: "''juniper'' \<noteq> []"
    by simp
  show "fst (discover_single w ip creds s) =
        Inr (fst (query_neighbors w net_connect ip ''juniper''), [(ip, ''juniper'')])"
    by (rule discover_single_connected(1) [OF a b n j c d])
qed

theorem juniper_lldp_fallback_witness:
  "parse_juniper_lldp_interfaces
     ''Local Interface    Chassis Id\<newline>ge-0/0/0    00:11\<newline>\<newline>ge-0/0/1    00:22\<newline>'' =
     [''ge-0/0/0'', ''ge-0/0/1''] \<and>
   set_iter juniper_world [''ge-0/0/0'', ''ge-0/0/1''] = [''ge-0/0/1'', ''ge-0/0/0''] \<and>
   set (fst (query_neighbors juniper_world juniper_session ''10.0.1.0'' ''juniper'')) =
     {''10.0.1.1'', ''10.0.1.2''} \<and>
   snd (query_neighbors juniper_world juniper_session ''10.0.1.0'' ''juniper'') =
     [(WARNING, ''Falling back to per-interface LLDP for 10.0.1.0'')] \<and>
   fst (discover_single juniper_world ''10.0.1.0'' lab_creds initial_shared) =
     Inr (fst (query_neighbors juniper_world juniper_session ''10.0.1.0'' ''juniper''),
          [(''10.0.1.0'', ''juniper'')]) \<and>
   set (fst (juniper_lldp juniper_world juniper_partial ''10.0.1.0'' ([], 0, []))) =
     {''10.0.1.2''} \<and>
   snd (snd (juniper_lldp juniper_world juniper_partial ''10.0.1.0'' ([], 0, []))) =
     [(WARNING, ''Falling back to per-interface LLDP for 10.0.1.0''),
      (ERROR, ''Fallback LLDP per-interface also failed on 10.0.1.0: Socket is closed'')] \<and>
   juniper_lldp juniper_world (answering (Inr ''re0>'') []) ''10.0.1.0'' ([], 0, []) =
     ([], 1, [(ERROR, ''LLDP detail failed on 10.0.1.0: % Invalid input detected'')]) \<and>
   juniper_lldp juniper_world
     (answering (Inr ''re0>'') [(''show lldp neighbors'', ''ge-0/0/0 10.0.1.9'')])
     ''10.0.1.0'' ([], 0, []) = ([''10.0.1.9''], 1, [])"
proof -
  let ?summary = "''Local Interface    Chassis Id\<newline>ge-0/0/0    00:11\<newline>\<newline>ge-0/0/1    00:22\<newline>''"
  let ?out = "\<lambda>iface. if iface = ''ge-0/0/0'' then ''Address : 10.0.1.1''
                       else ''Address : 10.0.1.2''"
  let ?outs = "\<lambda>k::nat. ''Address : 10.0.1.2''"
  let ?e = "Exception ''Syntax Error, expecting <command>.''"
  note T = juniper_lldp_fallback [of juniper_world juniper_session "''10.0.1.0''"]
  note P = juniper_lldp_fallback [of juniper_world juniper_partial "''10.0.1.0''"]
  have p: "parse_juniper_lldp_interfaces ?summary = [''ge-0/0/0'', ''ge-0/0/1'']"
    by code_simp
  have it: "set_iter juniper_world [''ge-0/0/0'', ''ge-0/0/1''] = [''ge-0/0/1'', ''ge-0/0/0'']"
    by code_simp
  have first: "send_command juniper_session 0 ''show lldp neighbors'' = Inl ?e"
    by (simp add: juniper_session_def)
  have syn: "contains ''syntax error'' (lower (str ?e))"
    by code_simp
  have summ: "send_command juniper_session 1 ''show lldp neighbors'' = Inr ?summary"
    by (simp add: juniper_session_def)
  have det: "\<forall>iface \<in> set (parse_juniper_lldp_interfaces ?summary). \<forall>n\<ge>2.
         send_command juniper_session n (''show lldp neighbors interface '' @ iface) =
         Inr (?out iface)"
    unfolding p by (simp add: juniper_session_def)
  from T [THEN conjunct2, THEN conjunct2, THEN conjunct2, THEN conjunct1, rule_format,
          of ?e ?summary ?out] first syn summ det
  obtain found where f:
    "juniper_lldp juniper_world juniper_session ''10.0.1.0'' ([], 0, []) =
       (found, 2 + length (parse_juniper_lldp_interfaces ?summary),
        [(WARNING, ''Falling back to per-interface LLDP for '' @ ''10.0.1.0'')])"
    "set found = (\<Union>iface \<in> set (parse_juniper_lldp_interfaces ?summary).
              set (extract_all_ips (?out iface)))"
    by blast
  have x1: "extract_all_ips ''Address : 10.0.1.1'' = [''10.0.1.1'']" by code_simp
  have x2: "extract_all_ips ''Address : 10.0.1.2'' = [''10.0.1.2'']" by code_simp
  have found: "set found = {''10.0.1.1'', ''10.0.1.2''}"
    unfolding f(2) p by (auto simp: x1 x2)
  have q: "query_neighbors juniper_world juniper_session ''10.0.1.0'' ''juniper'' =
      (found, [(WARNING, ''Falling back to per-interface LLDP for 10.0.1.0'')])"
    using T [THEN conjunct1] f(1) by simp
  have det_j: "fst (detect_device_type juniper_world ''10.0.1.0'' lab_creds) =
      Inr (Some ''juniper'')"
    by (simp add: detect_device_type_def juniper_world_def network_def host_of_def
          lab_creds_def get_device_cred_def base_params_def)
  have con_j: "fst (ssh_connect juniper_world ''10.0.1.0'' lab_creds ''juniper'') =
      Inr (Some juniper_session)"
    by (simp add: ssh_connect_def open_session_def juniper_world_def network_def host_of_def
          lab_creds_def get_device_cred_def device_params_def juniper_session_def)
  have prm: "find_prompt juniper_session = Inr ''admin@mx1>''"
    by (simp add: juniper_session_def)
  have fresh: "''10.0.1.0'' \<notin> set (visited_global initial_shared)"
    by (simp add: initial_shared_def)
  have w: "fst (discover_single juniper_world ''10.0.1.0'' lab_creds initial_shared) =
     Inr (fst (query_neighbors juniper_world juniper_session ''10.0.1.0'' ''juniper''),
          [(''10.0.1.0'', ''juniper'')])"
    using T [THEN conjunct2, THEN conjunct2, THEN conjunct2, THEN conjunct2, THEN conjunct2,
             THEN conjunct2, THEN conjunct2, THEN conjunct2, THEN conjunct2, rule_format,
             of initial_shared lab_creds "''admin@mx1>''"]
      fresh det_j con_j prm by blast
  have pfirst: "send_command juniper_partial 0 ''show lldp neighbors'' = Inl ?e"
    by (simp add: juniper_partial_def juniper_session_def)
  have psumm: "send_command juniper_partial 1 ''show lldp neighbors'' = Inr ?summary"
    by (simp add: juniper_partial_def juniper_session_def)
  have plen: "(1::nat) < length (set_iter juniper_world (parse_juniper_lldp_interfaces ?summary))"
    unfolding p it by simp
  have pbefore: "\<forall>j<(1::nat). send_command juniper_partial (2 + j)
           (''show lldp neighbors interface '' @
            set_iter juniper_world (parse_juniper_lldp_interfaces ?summary) ! j) =
         Inr (?outs j)"
    unfolding p it by (simp add: juniper_partial_def juniper_session_def)
  have pfail: "send_command juniper_partial (2 + 1)
           (''show lldp neighbors interface '' @
            set_iter juniper_world (parse_juniper_lldp_interfaces ?summary) ! 1) =
         Inl (Exception ''Socket is closed'')"
    by (simp add: juniper_partial_def)
  from P [THEN conjunct2, THEN conjunct2, THEN conjunct2, THEN conjunct2, THEN conjunct2,
          THEN conjunct2, THEN conjunct2, THEN conjunct2, THEN conjunct1, rule_format,
          of ?e ?summary 1 ?outs "Exception ''Socket is closed''"]
    pfirst syn psumm plen pbefore pfail
  obtain part where part:
    "juniper_lldp juniper_world juniper_partial ''10.0.1.0'' ([], 0, []) =
       (part, 3 + 1,
        [(WARNING, ''Falling back to per-interface LLDP for '' @ ''10.0.1.0''),
         (ERROR, ''Fallback LLDP per-interface also failed on '' @ ''10.0.1.0'' @ '': '' @
                 str (Exception ''Socket is closed''))])"
    "set part = (\<Union>j<(1::nat). set (extract_all_ips (?outs j)))"
    by blast
  have part_set: "set part = {''10.0.1.2''}"
    unfolding part(2) by (auto simp: x2)
  have o1: "send_command (answering (Inr ''re0>'') []) 0 ''show lldp neighbors'' =
      Inl (Exception ''% Invalid input detected'')"
    by (simp add: answering_def)
  have o2: "\<not> contains ''syntax error'' (lower (str (Exception ''% Invalid input detected'')))"
    by code_simp
  have other: "juniper_lldp juniper_world (answering (Inr ''re0>'') []) ''10.0.1.0'' ([], 0, []) =
     ([], 1, [(ERROR, ''LLDP detail failed on 10.0.1.0: % Invalid input detected'')])"
    using juniper_lldp_fallback [of juniper_world "answering (Inr ''re0>'') []" "''10.0.1.0''",
            THEN conjunct2, THEN conjunct2, THEN conjunct2, THEN conjunct2, THEN conjunct2,
            THEN conjunct2, THEN conjunct1, rule_format,
            of "Exception ''% Invalid input detected''"] o1 o2
    by simp
  have k1: "send_command (answering (Inr ''re0>'') [(''show lldp neighbors'', ''ge-0/0/0 10.0.1.9'')])
      0 ''show lldp neighbors'' = Inr ''ge-0/0/0 10.0.1.9''"
    by (simp add: answering_def)
  have x3: "extract_all_ips ''ge-0/0/0 10.0.1.9'' = [''10.0.1.9'']" by code_simp
  have ok: "juniper_lldp juniper_world
       (answering (Inr ''re0>'') [(''show lldp neighbors'', ''ge-0/0/0 10.0.1.9'')])
     ''10.0.1.0'' ([], 0, []) = ([''10.0.1.9''], 1, [])"
    using juniper_lldp_fallback
            [of juniper_world
                "answering (Inr ''re0>'') [(''show lldp neighbors'', ''ge-0/0/0 10.0.1.9'')]"
                "''10.0.1.0''", THEN conjunct2, THEN conjunct1, rule_format, OF k1]
    by (simp add: x3)
  from p it found q w part part_set other ok show ?thesis
    by simp
qed

section \<open>Levels\<close>

lemma grows_refl [simp]: "grows s s"
  by (simp add: grows_def)

lemma grows_trans: "grows s s' \<Longrightarrow> grows s' s'' \<Longrightarrow> grows s s''"
  unfolding grows_def by (elim conjE exE) (auto simp: subset_trans)

lemma grows_log_add [simp]: "grows s (log_add lg s)"
  by (simp add: grows_def)

lemma grows_visit [simp]: "grows s (visit ip s)"
  by (auto simp: grows_def)

lemma grows_record_device [simp]: "grows s (record_device r s)"
  by (simp add: grows_def)

lemma grows_log_visit [simp]: "grows s (visit ip (log_add lg2 (log_add lg1 s)))"
  by (auto simp: grows_def)

lemma grows_log_log [simp]: "grows s (log_add lg2 (log_add lg1 s))"
  by (auto simp: grows_def)

lemma worker_step_grows: "grows s (snd (worker_step w creds wk s))"
proof (cases wk)
  case (Queued ip)
  then show ?thesis by simp
next
  case (Claimed ip)
  obtain dt dlog where d: "detect_device_type w ip creds = (dt, dlog)"
    by (cases "detect_device_type w ip creds")
  show ?thesis
  proof (cases dt)
    case (Inl e)
    with Claimed d show ?thesis by (simp add: Let_def)
  next
    case (Inr found)
    show ?thesis
    proof (cases found)
      case None
      with Claimed d Inr show ?thesis by (simp add: Let_def)
    next
      case (Some t)
      obtain nc clog where c: "ssh_connect w ip creds t = (nc, clog)"
        by (cases "ssh_connect w ip creds t")
      show ?thesis
        using Claimed d Inr Some c
        by (simp add: Let_def split: sum.splits option.splits)
    qed
  qed
next
  case (Marked ip t nc h)
  then show ?thesis by simp
next
  case (Recorded ip t nc)
  then show ?thesis by (simp split: prod.splits)
next
  case (Done r)
  then show ?thesis by simp
qed

lemma collect_grows: "grows (shared_state ls) (shared_state (collect i r ls))"
  by (cases r) (auto split: prod.splits)

lemma level_step_grows: "grows (shared_state ls) (shared_state (level_step w creds a ls))"
proof (cases a)
  case (Run i)
  then show ?thesis
    using worker_step_grows [of "shared_state ls" w creds "futures ls ! i"]
    by (auto split: prod.splits)
next
  case (Take i)
  then show ?thesis
    by (cases "futures ls ! i") (simp_all add: collect_grows)
qed

lemma fold_level_step_grows:
  "grows (shared_state ls) (shared_state (fold (level_step w creds) acts ls))"
proof (induction acts arbitrary: ls)
  case Nil
  then show ?case by simp
next
  case (Cons a acts)
  show ?case
    using level_step_grows [of ls w creds a] Cons [of "level_step w creds a ls"]
    by (simp add: grows_trans)
qed

lemma run_level_grows: "grows s (shared_state (run_level w creds sched frontier s))"
  using fold_level_step_grows [of "level_init frontier s" w creds "sched @ finish (length frontier)"]
  by (simp add: run_level_def level_init_def del: fold_append)

lemma discover_loop_stop:
  assumes "\<not> (int (current_depth st) \<le> max_depth \<and> to_visit st \<noteq> [])"
  shows "discover_loop w creds scheds max_depth max_workers st = (None, st)"
  by (subst discover_loop.simps) (simp only: assms if_False)

lemma discover_loop_error:
  assumes "int (current_depth st) \<le> max_depth \<and> to_visit st \<noteq> []" and "max_workers \<le> 0"
  shows "discover_loop w creds scheds max_depth max_workers st =
     (Some (Exception ''max_workers must be greater than 0''),
      st\<lparr>globals := log_add [(INFO, ''Starting discovery depth '' @
          show_nat (current_depth st) @ '' with '' @ show_nat (length (to_visit st)) @
          '' device(s)'')] (globals st)\<rparr>)"
  by (subst discover_loop.simps) (simp only: assms if_True Let_def simp_thms)

lemma discover_loop_step:
  assumes "int (current_depth st) \<le> max_depth \<and> to_visit st \<noteq> []" and "\<not> max_workers \<le> 0"
  shows "discover_loop w creds scheds max_depth max_workers st =
     discover_loop w creds scheds max_depth max_workers
       \<lparr>to_visit = next_to_visit (run_level w creds (scheds (current_depth st)) (to_visit st)
            (log_add [(INFO, ''Starting discovery depth '' @ show_nat (current_depth st) @
               '' with '' @ show_nat (length (to_visit st)) @ '' device(s)'')] (globals st))),
        current_depth = Suc (current_depth st),
        globals = shared_state (run_level w creds (scheds (current_depth st)) (to_visit st)
            (log_add [(INFO, ''Starting discovery depth '' @ show_nat (current_depth st) @
               '' with '' @ show_nat (length (to_visit st)) @ '' device(s)'')] (globals st)))\<rparr>"
  by (subst discover_loop.simps) (simp only: assms if_True if_False Let_def simp_thms)

lemma discover_loop_grows:
  "grows (globals st) (globals (snd (discover_loop w creds scheds max_depth max_workers st)))"
proof (induction w creds scheds max_depth max_workers st rule: discover_loop.induct)
  case (1 w creds scheds max_depth max_workers st)
  show ?case
  proof (cases "int (current_depth st) \<le> max_depth \<and> to_visit st \<noteq> []")
    case False
    from discover_loop_stop [OF this] show ?thesis by simp
  next
    case True
    show ?thesis
    proof (cases "max_workers \<le> 0")
      case True
      from discover_loop_error [OF \<open>int (current_depth st) \<le> max_depth \<and> to_visit st \<noteq> []\<close> True]
      show ?thesis by simp
    next
      case False
      let ?s = "log_add [(INFO, ''Starting discovery depth '' @ show_nat (current_depth st) @
                   '' with '' @ show_nat (length (to_visit st)) @ '' device(s)'')] (globals st)"
      let ?ls = "run_level w creds (scheds (current_depth st)) (to_visit st) ?s"
      let ?st = "\<lparr>to_visit = next_to_visit ?ls, current_depth = Suc (current_depth st),
                     globals = shared_state ?ls\<rparr>"
      have step: "discover_loop w creds scheds max_depth max_workers st =
                  discover_loop w creds scheds max_depth max_workers ?st"
        using True False by (rule discover_loop_step)
      have "grows (globals ?st)
              (globals (snd (discover_loop w creds scheds max_depth max_workers ?st)))"
        using "1.IH" [OF True refl False refl] .
      moreover have "grows (globals st) (globals ?st)"
        using run_level_grows [of ?s w creds "scheds (current_depth st)" "to_visit st"]
        by (simp add: grows_trans [OF grows_log_add])
      ultimately show ?thesis
        unfolding step by (rule grows_trans [rotated])
    qed
  qed
qed

lemma level_step_Run:
  "i < length (futures ls) \<Longrightarrow>
   level_step w creds (Run i) ls =
     ls\<lparr>shared_state := snd (piece w creds (futures ls ! i, shared_state ls)),
        futures := (futures ls)[i := fst (piece w creds (futures ls ! i, shared_state ls))]\<rparr>"
  by (simp add: piece_def split: prod.splits)

lemma level_step_Run_out [simp]:
  "\<not> i < length (futures ls) \<Longrightarrow> level_step w creds (Run i) ls = ls"
  by simp

lemma run4:
  assumes "i < length (futures ls)"
  shows "fold (level_step w creds) [Run i, Run i, Run i, Run i] ls =
     ls\<lparr>shared_state :=
          snd (piece w creds (piece w creds (piece w creds (piece w creds
                 (futures ls ! i, shared_state ls))))),
        futures := (futures ls)[i :=
          fst (piece w creds (piece w creds (piece w creds (piece w creds
                 (futures ls ! i, shared_state ls)))))]\<rparr>"
  using assms by (simp add: level_step_Run del: level_step.simps)

lemma five_pieces:
  "piece w creds (piece w creds (piece w creds (piece w creds (piece w creds x)))) =
   piece w creds (piece w creds (piece w creds (piece w creds x)))"
proof -
  obtain wk s where x: "x = (wk, s)" by (cases x)
  from four_pieces_Done [of w creds wk s] obtain r s' where
    "piece w creds (piece w creds (piece w creds (piece w creds (wk, s)))) = (Done r, s')"
    by blast
  then show ?thesis unfolding x by simp
qed

lemma finish_1: "finish 1 = [Run 0, Run 0, Run 0, Run 0, Take 0]"
  by (simp add: finish_def)

lemma collect_simps [simp]:
  "futures (collect i r ls) = futures ls"
  "yielded (collect i r ls) = yielded ls @ [i]"
  by (cases r; auto split: prod.splits)+

lemma level_step_length [simp]:
  "length (futures (level_step w creds a ls)) = length (futures ls)"
proof (cases a)
  case (Run i)
  then show ?thesis by (simp split: prod.splits)
next
  case (Take i)
  then show ?thesis
    by (cases "futures ls ! i") simp_all
qed

lemma level_step_Collect_Done:
  "i < length (futures ls) \<Longrightarrow> i \<notin> set (yielded ls) \<Longrightarrow> futures ls ! i = Done r \<Longrightarrow>
   level_step w creds (Take i) ls = collect i r ls"
  by simp

lemma level_step_Collect_skip:
  "\<not> i < length (futures ls) \<or> i \<in> set (yielded ls) \<or> (\<forall>r. futures ls ! i \<noteq> Done r) \<Longrightarrow>
   level_step w creds (Take i) ls = ls"
  by (cases "futures ls ! i") auto

declare level_step.simps [simp del]

lemma finish_1_fold:
  "fold (level_step w creds) (finish 1) ls =
     level_step w creds (Take 0) (fold (level_step w creds) [Run 0, Run 0, Run 0, Run 0] ls)"
  by (simp only: finish_1 fold_simps)

lemma run4_Done_id:
  assumes "i < length (futures ls)" and "futures ls ! i = Done r"
  shows "fold (level_step w creds) [Run i, Run i, Run i, Run i] ls = ls"
  unfolding run4 [OF assms(1)] using assms by (simp add: list_update_same_conv)

text \<open>In a level of one worker, any action before the closing sequence changes nothing
  in what the closing sequence leaves.\<close>

lemma single_absorb:
  assumes len: "length (futures ls) = 1"
    and inv: "0 \<in> set (yielded ls) \<longrightarrow> (\<exists>r. futures ls ! 0 = Done r)"
  shows "fold (level_step w creds) (finish 1) (level_step w creds a ls) =
         fold (level_step w creds) (finish 1) ls"
proof (cases a)
  case (Run i)
  show ?thesis
  proof (cases "i = 0")
    case False
    with len have "\<not> i < length (futures ls)" by simp
    then have "level_step w creds (Run i) ls = ls" by (rule level_step_Run_out)
    then show ?thesis unfolding Run by (rule arg_cong)
  next
    case True
    let ?x = "(futures ls ! 0, shared_state ls)"
    let ?ls' = "level_step w creds (Run 0) ls"
    have z: "0 < length (futures ls)" using len by simp
    have z': "0 < length (futures ?ls')" unfolding level_step_length using len by simp
    have ls': "?ls' = ls\<lparr>shared_state := snd (piece w creds ?x),
        futures := (futures ls)[0 := fst (piece w creds ?x)]\<rparr>"
      by (rule level_step_Run [OF z])
    have "fold (level_step w creds) [Run 0, Run 0, Run 0, Run 0] ?ls' =
          fold (level_step w creds) [Run 0, Run 0, Run 0, Run 0] ls"
      unfolding run4 [OF z'] run4 [OF z]
      unfolding ls' using z by (simp add: five_pieces)
    then show ?thesis
      unfolding Run True finish_1_fold by (rule arg_cong)
  qed
next
  case (Take i)
  show ?thesis
  proof (cases "i < length (futures ls) \<and> i \<notin> set (yielded ls) \<and> (\<exists>r. futures ls ! i = Done r)")
    case False
    then have "level_step w creds (Take i) ls = ls"
      by (intro level_step_Collect_skip) blast
    then show ?thesis unfolding Take by (rule arg_cong)
  next
    case True
    then obtain r where i: "i = 0" and ny: "0 \<notin> set (yielded ls)" and d: "futures ls ! 0 = Done r"
      using len by auto
    have z: "0 < length (futures ls)" using len by simp
    let ?ls' = "collect 0 r ls"
    have c: "level_step w creds (Take 0) ls = ?ls'"
      using z ny d by (rule level_step_Collect_Done)
    have z': "0 < length (futures ?ls')" using z by simp
    have d': "futures ?ls' ! 0 = Done r" using d by simp
    have "fold (level_step w creds) (finish 1) ?ls' = level_step w creds (Take 0) ?ls'"
      unfolding finish_1_fold run4_Done_id [OF z' d'] ..
    also have "\<dots> = ?ls'"
      by (intro level_step_Collect_skip) simp
    finally have l: "fold (level_step w creds) (finish 1) ?ls' = ?ls'" .
    have r: "fold (level_step w creds) (finish 1) ls = ?ls'"
      unfolding finish_1_fold run4_Done_id [OF z d] c ..
    show ?thesis
      unfolding Take i c l r ..
  qed
qed

lemma single_inv_step:
  assumes "length (futures ls) = 1"
    and "0 \<in> set (yielded ls) \<longrightarrow> (\<exists>r. futures ls ! 0 = Done r)"
  shows "0 \<in> set (yielded (level_step w creds a ls)) \<longrightarrow>
         (\<exists>r. futures (level_step w creds a ls) ! 0 = Done r)"
proof (cases a)
  case (Run i)
  show ?thesis
  proof (cases "i = 0")
    case False
    with assms(1) have "\<not> i < length (futures ls)" by simp
    then have "level_step w creds (Run i) ls = ls" by (rule level_step_Run_out)
    with assms(2) show ?thesis unfolding Run by simp
  next
    case True
    have z: "0 < length (futures ls)" using assms(1) by simp
    show ?thesis
      unfolding Run True level_step_Run [OF z]
      using assms z by (auto simp: piece_def)
  qed
next
  case (Take i)
  show ?thesis
  proof (cases "i < length (futures ls) \<and> i \<notin> set (yielded ls) \<and> (\<exists>r. futures ls ! i = Done r)")
    case False
    then have "level_step w creds (Take i) ls = ls"
      by (intro level_step_Collect_skip) blast
    with assms(2) show ?thesis unfolding Take by simp
  next
    case True
    then obtain r where i: "i = 0" and ny: "0 \<notin> set (yielded ls)" and d: "futures ls ! 0 = Done r"
      using assms(1) by auto
    have z: "0 < length (futures ls)" using assms(1) by simp
    show ?thesis
      unfolding Take i level_step_Collect_Done [OF z ny d] using d by simp
  qed
qed

lemma single_fold:
  assumes "length (futures ls) = 1"
    and "0 \<in> set (yielded ls) \<longrightarrow> (\<exists>r. futures ls ! 0 = Done r)"
  shows "fold (level_step w creds) (sched @ finish 1) ls =
         fold (level_step w creds) (finish 1) ls"
  using assms
proof (induction sched arbitrary: ls)
  case Nil
  then show ?case by simp
next
  case (Cons a sched)
  have "fold (level_step w creds) ((a # sched) @ finish 1) ls =
        fold (level_step w creds) (sched @ finish 1) (level_step w creds a ls)"
    by simp
  also have "\<dots> = fold (level_step w creds) (finish 1) (level_step w creds a ls)"
    using Cons.prems by (intro Cons.IH single_inv_step) simp_all
  also have "\<dots> = fold (level_step w creds) (finish 1) ls"
    using Cons.prems by (rule single_absorb)
  finally show ?case .
qed

lemma run_level_single:
  "run_level w creds sched [ip] s =
     collect 0 (fst (discover_single w ip creds s))
       \<lparr>shared_state = snd (discover_single w ip creds s),
        futures = [Done (fst (discover_single w ip creds s))],
        yielded = [], next_to_visit = [], seen = []\<rparr>"
proof -
  let ?init = "level_init [ip] s"
  have len: "length (futures ?init) = 1" by (simp add: level_init_def)
  have inv: "0 \<in> set (yielded ?init) \<longrightarrow> (\<exists>r. futures ?init ! 0 = Done r)"
    by (simp add: level_init_def)
  have z: "0 < length (futures ?init)" using len by simp
  let ?after = "\<lparr>shared_state = snd (discover_single w ip creds s),
        futures = [Done (fst (discover_single w ip creds s))],
        yielded = [], next_to_visit = [], seen = []\<rparr>"
  have four: "fold (level_step w creds) [Run 0, Run 0, Run 0, Run 0] ?init = ?after"
    unfolding run4 [OF z] by (simp add: level_init_def worker_alone)
  have "run_level w creds sched [ip] s = fold (level_step w creds) (finish 1) ?init"
    unfolding run_level_def using single_fold [OF len inv] by simp
  also have "\<dots> = level_step w creds (Take 0) ?after"
    unfolding finish_1_fold four ..
  also have "\<dots> = collect 0 (fst (discover_single w ip creds s)) ?after"
    by (rule level_step_Collect_Done) simp_all
  finally show ?thesis .
qed

section \<open>The loop over the levels\<close>

lemma discover_loop_terminal:
  "discover_loop w creds scheds max_depth max_workers st = (None, st') \<Longrightarrow>
   \<not> (int (current_depth st') \<le> max_depth \<and> to_visit st' \<noteq> [])"
proof (induction w creds scheds max_depth max_workers st rule: discover_loop.induct)
  case (1 w creds scheds max_depth max_workers st)
  show ?case
  proof (cases "int (current_depth st) \<le> max_depth \<and> to_visit st \<noteq> []")
    case False
    from "1.prems" discover_loop_stop [OF False, of w creds scheds max_workers]
    have "st' = st" by simp
    with False show ?thesis by simp
  next
    case True
    show ?thesis
    proof (cases "max_workers \<le> 0")
      case True
      from "1.prems" discover_loop_error [OF \<open>int (current_depth st) \<le> max_depth \<and> to_visit st \<noteq> []\<close> True, of w creds scheds]
      show ?thesis by simp
    next
      case False
      from "1.prems" show ?thesis
        unfolding discover_loop_step [OF True False]
        by (rule "1.IH" [OF True refl False refl])
    qed
  qed
qed

lemma query_neighbors_cisco:
  "set (fst (query_neighbors w net_connect ip ''cisco_ios'')) =
     (case send_command net_connect 0 ''show cdp neighbors detail'' of
        Inl e \<Rightarrow> {} | Inr out \<Rightarrow> set (extract_all_ips out)) \<union>
     (case send_command net_connect 1 ''show lldp neighbors detail'' of
        Inl e \<Rightarrow> {} | Inr out \<Rightarrow> set (extract_all_ips out))"
  by (simp add: query_neighbors_def VENDOR_COMMANDS_def get_or_def run_proto_def dict_get_def
        split: sum.splits prod.splits)

lemma depth0_scenario:
  assumes fresh: "set (visited_global s) \<inter> {''10.0.0.1'', ''10.0.0.2'', ''10.0.0.3''} = {}"
    and det: "fst (detect_device_type w ''10.0.0.1'' creds) = Inr (Some ''cisco_ios'')"
    and con: "fst (ssh_connect w ''10.0.0.1'' creds ''cisco_ios'') = Inr (Some net_connect)"
    and prm: "find_prompt net_connect = Inr prompt"
    and cdp: "(case send_command net_connect 0 ''show cdp neighbors detail'' of
                 Inl e \<Rightarrow> {} | Inr out \<Rightarrow> set (extract_all_ips out)) \<subseteq>
              {''10.0.0.2'', ''10.0.0.3''}"
    and lldp: "send_command net_connect 1 ''show lldp neighbors detail'' = Inr lldp_output"
    and ips: "set (extract_all_ips lldp_output) = {''10.0.0.2'', ''10.0.0.3''}"
    and pool: "0 < max_workers"
  shows "\<exists>st'. discover_loop w creds scheds 0 max_workers
                 \<lparr>to_visit = [''10.0.0.1''], current_depth = 0, globals = s\<rparr> = (None, st') \<and>
           set (to_visit st') = {''10.0.0.2'', ''10.0.0.3''} \<and>
           current_depth st' = 1 \<and>
           results_global (globals st') =
             results_global s @ [\<lparr>rec_ip = ''10.0.0.1'', rec_device_type = ''cisco_ios'',
                                    rec_hostname = hostname_of prompt\<rparr>] \<and>
           visited_global (globals st') = visited_global s @ [''10.0.0.1'']"
proof -
  let ?ip = "''10.0.0.1''"
  let ?st0 = "\<lparr>to_visit = [?ip], current_depth = 0, globals = s\<rparr>"
  let ?s' = "log_add [(INFO, ''Starting discovery depth '' @ show_nat (current_depth ?st0) @
               '' with '' @ show_nat (length (to_visit ?st0)) @ '' device(s)'')] (globals ?st0)"
  let ?D = "discover_single w ?ip creds ?s'"
  let ?N = "fst (query_neighbors w net_connect ?ip ''cisco_ios'')"
  let ?ls = "run_level w creds (scheds (current_depth ?st0)) (to_visit ?st0) ?s'"
  let ?st1 = "\<lparr>to_visit = next_to_visit ?ls, current_depth = Suc (current_depth ?st0),
               globals = shared_state ?ls\<rparr>"
  have new: "?ip \<notin> set (visited_global ?s')"
    using fresh by simp
  have t1: "''cisco_ios'' \<noteq> []" by simp
  have t2: "map_of VENDOR_COMMANDS ''cisco_ios'' \<noteq> None"
    by (simp add: VENDOR_COMMANDS_def)
  note D = discover_single_connected [OF new det t1 t2 con prm]
  have N: "set ?N = {''10.0.0.2'', ''10.0.0.3''}"
    unfolding query_neighbors_cisco using cdp lldp ips by auto
  have ls: "?ls = collect 0 (fst ?D)
       \<lparr>shared_state = snd ?D, futures = [Done (fst ?D)],
        yielded = [], next_to_visit = [], seen = []\<rparr>"
    by (simp only: loop_state.simps run_level_single)
  have nx: "set (next_to_visit ?ls) = {''10.0.0.2'', ''10.0.0.3''}"
    unfolding ls D(1) using N D(2) fresh by auto
  have sh: "shared_state ?ls = snd ?D"
    unfolding ls D(1) by simp
  have go: "int (current_depth ?st0) \<le> 0 \<and> to_visit ?st0 \<noteq> []"
    by simp
  have pool': "\<not> max_workers \<le> 0" using pool by simp
  have "discover_loop w creds scheds 0 max_workers ?st0 =
        discover_loop w creds scheds 0 max_workers ?st1"
    by (rule discover_loop_step [OF go pool'])
  also have "\<dots> = (None, ?st1)"
    by (rule discover_loop_stop) simp
  finally have "discover_loop w creds scheds 0 max_workers ?st0 = (None, ?st1)" .
  moreover have "set (to_visit ?st1) = {''10.0.0.2'', ''10.0.0.3''}"
    using nx by simp
  moreover have "current_depth ?st1 = 1" by simp
  moreover have "results_global (globals ?st1) =
             results_global s @ [\<lparr>rec_ip = ''10.0.0.1'', rec_device_type = ''cisco_ios'',
                                    rec_hostname = hostname_of prompt\<rparr>]"
    using sh D(3) by simp
  moreover have "visited_global (globals ?st1) = visited_global s @ [''10.0.0.1'']"
    using sh D(2) new by simp
  ultimately show ?thesis by blast
qed

text \<open>
  Claim C5. \<open>concurrent_discover\<close> enters its loop at depth 0 with the frontier that
  holds the seed alone. The loop stops in a state exactly when the depth of the state
  exceeds \<open>max_depth\<close> or its frontier is empty: it then returns the state as it is;
  otherwise it runs the level and goes on with the next frontier at the next depth; and a
  state it returns normally is always one where it stops. (The loop is a total function:
  it always returns.) In the scenario: with seed \<open>10.0.0.1\<close> and \<open>max_depth = 0\<close>, the seed
  detected as \<open>cisco_ios\<close>, a session whose LLDP command returns a text with the addresses
  \<open>10.0.0.2\<close> and \<open>10.0.0.3\<close> and whose CDP command adds no other address, the run ends
  after level 0 with exactly one new record, for \<open>10.0.0.1\<close>; the next frontier is
  \<open>{10.0.0.2, 10.0.0.3}\<close>, and neither address has been visited.
\<close>

theorem scheduler_depth_bound:
  "concurrent_discover w creds scheds seed_ip max_depth max_workers s0 =
     (case discover_loop w creds scheds max_depth max_workers
             \<lparr>to_visit = [seed_ip], current_depth = 0, globals = s0\<rparr> of
        (Some e, st) \<Rightarrow> (Inl e, globals st)
      | (None, st) \<Rightarrow>
          (Inr (visited_global (globals st), results_global (globals st)), globals st)) \<and>
   (\<not> (int (current_depth st) \<le> max_depth \<and> to_visit st \<noteq> []) \<longrightarrow>
      discover_loop w creds scheds max_depth max_workers st = (None, st)) \<and>
   (int (current_depth st) \<le> max_depth \<and> to_visit st \<noteq> [] \<and> 0 < max_workers \<longrightarrow>
      discover_loop w creds scheds max_depth max_workers st =
      discover_loop w creds scheds max_depth max_workers
        \<lparr>to_visit = next_to_visit (run_level w creds (scheds (current_depth st)) (to_visit st)
            (log_add [(INFO, ''Starting discovery depth '' @ show_nat (current_depth st) @
               '' with '' @ show_nat (length (to_visit st)) @ '' device(s)'')] (globals st))),
         current_depth = Suc (current_depth st),
         globals = shared_state (run_level w creds (scheds (current_depth st)) (to_visit st)
            (log_add [(INFO, ''Starting discovery depth '' @ show_nat (current_depth st) @
               '' with '' @ show_nat (length (to_visit st)) @ '' device(s)'')] (globals st)))\<rparr>) \<and>
   (\<forall>st'. discover_loop w creds scheds max_depth max_workers st = (None, st') \<longrightarrow>
      \<not> (int (current_depth st') \<le> max_depth \<and> to_visit st' \<noteq> [])) \<and>
   (\<forall>s net_connect prompt lldp_output.
      set (visited_global s) \<inter> {''10.0.0.1'', ''10.0.0.2'', ''10.0.0.3''} = {} \<and>
      fst (detect_device_type w ''10.0.0.1'' creds) = Inr (Some ''cisco_ios'') \<and>
      fst (ssh_connect w ''10.0.0.1'' creds ''cisco_ios'') = Inr (Some net_connect) \<and>
      find_prompt net_connect = Inr prompt \<and>
      (case send_command net_connect 0 ''show cdp neighbors detail'' of
         Inl e \<Rightarrow> {} | Inr out \<Rightarrow> set (extract_all_ips out)) \<subseteq>
        {''10.0.0.2'', ''10.0.0.3''} \<and>
      send_command net_connect 1 ''show lldp neighbors detail'' = Inr lldp_output \<and>
      set (extract_all_ips lldp_output) = {''10.0.0.2'', ''10.0.0.3''} \<and>
      0 < max_workers \<longrightarrow>
      (\<exists>st'. discover_loop w creds scheds 0 max_workers
                 \<lparr>to_visit = [''10.0.0.1''], current_depth = 0, globals = s\<rparr> = (None, st') \<and>
           set (to_visit st') = {''10.0.0.2'', ''10.0.0.3''} \<and>
           current_depth st' = 1 \<and>
           results_global (globals st') =
             results_global s @ [\<lparr>rec_ip = ''10.0.0.1'', rec_device_type = ''cisco_ios'',
                                    rec_hostname = hostname_of prompt\<rparr>] \<and>
           visited_global (globals st') = visited_global s @ [''10.0.0.1'']))"
proof (intro conjI allI impI)
  show "concurrent_discover w creds scheds seed_ip max_depth max_workers s0 =
     (case discover_loop w creds scheds max_depth max_workers
             \<lparr>to_visit = [seed_ip], current_depth = 0, globals = s0\<rparr> of
        (Some e, st) \<Rightarrow> (Inl e, globals st)
      | (None, st) \<Rightarrow>
          (Inr (visited_global (globals st), results_global (globals st)), globals st))"
    by (simp add: concurrent_discover_def)
next
  assume "\<not> (int (current_depth st) \<le> max_depth \<and> to_visit st \<noteq> [])"
  then show "discover_loop w creds scheds max_depth max_workers st = (None, st)"
    by (rule discover_loop_stop)
next
  assume a: "int (current_depth st) \<le> max_depth \<and> to_visit st \<noteq> [] \<and> 0 < max_workers"
  then have go: "int (current_depth st) \<le> max_depth \<and> to_visit st \<noteq> []"
    and pool: "\<not> max_workers \<le> 0" by simp_all
  show "discover_loop w creds scheds max_depth max_workers st =
      discover_loop w creds scheds max_depth max_workers
        \<lparr>to_visit = next_to_visit (run_level w creds (scheds (current_depth st)) (to_visit st)
            (log_add [(INFO, ''Starting discovery depth '' @ show_nat (current_depth st) @
               '' with '' @ show_nat (length (to_visit st)) @ '' device(s)'')] (globals st))),
         current_depth = Suc (current_depth st),
         globals = shared_state (run_level w creds (scheds (current_depth st)) (to_visit st)
            (log_add [(INFO, ''Starting discovery depth '' @ show_nat (current_depth st) @
               '' with '' @ show_nat (length (to_visit st)) @ '' device(s)'')] (globals st)))\<rparr>"
    by (rule discover_loop_step [OF go pool])
next
  fix st'
  assume "discover_loop w creds scheds max_depth max_workers st = (None, st')"
  then show "\<not> (int (current_depth st') \<le> max_depth \<and> to_visit st' \<noteq> [])"
    by (rule discover_loop_terminal)
next
  fix s :: shared and net_connect prompt lldp_output
  assume "set (visited_global s) \<inter> {''10.0.0.1'', ''10.0.0.2'', ''10.0.0.3''} = {} \<and>
      fst (detect_device_type w ''10.0.0.1'' creds) = Inr (Some ''cisco_ios'') \<and>
      fst (ssh_connect w ''10.0.0.1'' creds ''cisco_ios'') = Inr (Some net_connect) \<and>
      find_prompt net_connect = Inr prompt \<and>
      (case send_command net_connect 0 ''show cdp neighbors detail'' of
         Inl e \<Rightarrow> {} | Inr out \<Rightarrow> set (extract_all_ips out)) \<subseteq>
        {''10.0.0.2'', ''10.0.0.3''} \<and>
      send_command net_connect 1 ''show lldp neighbors detail'' = Inr lldp_output \<and>
      set (extract_all_ips lldp_output) = {''10.0.0.2'', ''10.0.0.3''} \<and>
      0 < max_workers"
  then show "\<exists>st'. discover_loop w creds scheds 0 max_workers
                 \<lparr>to_visit = [''10.0.0.1''], current_depth = 0, globals = s\<rparr> = (None, st') \<and>
           set (to_visit st') = {''10.0.0.2'', ''10.0.0.3''} \<and>
           current_depth st' = 1 \<and>
           results_global (globals st') =
             results_global s @ [\<lparr>rec_ip = ''10.0.0.1'', rec_device_type = ''cisco_ios'',
                                    rec_hostname = hostname_of prompt\<rparr>] \<and>
           visited_global (globals st') = visited_global s @ [''10.0.0.1'']"
    by (elim conjE) (rule depth0_scenario; assumption)
qed

lemma lab_detect:
  "fst (detect_device_type lab_world ''10.0.0.1'' lab_creds) = Inr (Some ''cisco_ios'')"
  "fst (detect_device_type lab_world ''10.0.0.2'' lab_creds) = Inr (Some ''cisco_ios'')"
  "fst (detect_device_type lab_world ''10.0.0.3'' lab_creds) = Inr None"
  by (simp_all add: detect_device_type_def lab_world_def network_def host_of_def lab_creds_def
        get_device_cred_def base_params_def)

lemma lab_connect:
  "fst (ssh_connect lab_world ''10.0.0.1'' lab_creds ''cisco_ios'') =
     Inr (Some (answering (Inr ''core1#'')
         [(''show lldp neighbors detail'', ''Mgmt 10.0.0.2\<newline>Mgmt 10.0.0.3'')]))"
  by (simp add: ssh_connect_def open_session_def lab_world_def network_def host_of_def
        lab_creds_def get_device_cred_def device_params_def answering_def)

theorem scheduler_depth_bound_witness:
  "\<exists>st'. discover_loop lab_world lab_creds (\<lambda>d. []) 0 10
           \<lparr>to_visit = [''10.0.0.1''], current_depth = 0, globals = initial_shared\<rparr> =
           (None, st') \<and>
         set (to_visit st') = {''10.0.0.2'', ''10.0.0.3''} \<and> current_depth st' = 1 \<and>
         results_global (globals st') = [core_record] \<and>
         visited_global (globals st') = [''10.0.0.1''] \<and>
         \<not> (int (current_depth st') \<le> 0 \<and> to_visit st' \<noteq> [])"
proof -
  let ?sess = "answering (Inr ''core1#'')
         [(''show lldp neighbors detail'', ''Mgmt 10.0.0.2\<newline>Mgmt 10.0.0.3'')]"
  let ?out = "''Mgmt 10.0.0.2\<newline>Mgmt 10.0.0.3''"
  have x: "extract_all_ips ?out = [''10.0.0.2'', ''10.0.0.3'']"
    by code_simp
  have h: "hostname_of ''core1#'' = ''core1''"
    by code_simp
  have hyp: "set (visited_global initial_shared) \<inter> {''10.0.0.1'', ''10.0.0.2'', ''10.0.0.3''} = {} \<and>
      fst (detect_device_type lab_world ''10.0.0.1'' lab_creds) = Inr (Some ''cisco_ios'') \<and>
      fst (ssh_connect lab_world ''10.0.0.1'' lab_creds ''cisco_ios'') = Inr (Some ?sess) \<and>
      find_prompt ?sess = Inr ''core1#'' \<and>
      (case send_command ?sess 0 ''show cdp neighbors detail'' of
         Inl e \<Rightarrow> {} | Inr out \<Rightarrow> set (extract_all_ips out)) \<subseteq>
        {''10.0.0.2'', ''10.0.0.3''} \<and>
      send_command ?sess 1 ''show lldp neighbors detail'' = Inr ?out \<and>
      set (extract_all_ips ?out) = {''10.0.0.2'', ''10.0.0.3''} \<and>
      0 < (10::int)"
    unfolding x by (simp add: lab_detect lab_connect initial_shared_def answering_def)
  note T = scheduler_depth_bound [of lab_world lab_creds "\<lambda>d. []" _ 0 10]
  from T [THEN conjunct2, THEN conjunct2, THEN conjunct2, THEN conjunct2, rule_format, OF hyp]
  obtain st' where st':
    "discover_loop lab_world lab_creds (\<lambda>d. []) 0 10
           \<lparr>to_visit = [''10.0.0.1''], current_depth = 0, globals = initial_shared\<rparr> =
           (None, st')"
    "set (to_visit st') = {''10.0.0.2'', ''10.0.0.3''}" "current_depth st' = 1"
    "results_global (globals st') =
       results_global initial_shared @ [\<lparr>rec_ip = ''10.0.0.1'', rec_device_type = ''cisco_ios'',
                                    rec_hostname = hostname_of ''core1#''\<rparr>]"
    "visited_global (globals st') = visited_global initial_shared @ [''10.0.0.1'']"
    by blast
  have "\<not> (int (current_depth st') \<le> 0 \<and> to_visit st' \<noteq> [])"
    using st'(3) by simp
  with st' show ?thesis
    by (auto simp: h core_record_def initial_shared_def)
qed

section \<open>Successive runs\<close>

lemma discover_loop_returns:
  "0 < max_workers \<Longrightarrow> fst (discover_loop w creds scheds max_depth max_workers st) = None"
proof (induction w creds scheds max_depth max_workers st rule: discover_loop.induct)
  case (1 w creds scheds max_depth max_workers st)
  show ?case
  proof (cases "int (current_depth st) \<le> max_depth \<and> to_visit st \<noteq> []")
    case False
    from discover_loop_stop [OF False] show ?thesis by simp
  next
    case True
    have pool: "\<not> max_workers \<le> 0" using "1.prems" by simp
    show ?thesis
      unfolding discover_loop_step [OF True pool]
      by (rule "1.IH" [OF True refl pool refl "1.prems"])
  qed
qed

lemma concurrent_discover_state:
  "snd (concurrent_discover w creds scheds seed_ip max_depth max_workers s) =
     globals (snd (discover_loop w creds scheds max_depth max_workers
                     \<lparr>to_visit = [seed_ip], current_depth = 0, globals = s\<rparr>))"
  by (simp add: concurrent_discover_def split: prod.splits option.splits)

lemma concurrent_discover_result:
  "fst (concurrent_discover w creds scheds seed_ip max_depth max_workers s) = Inr (V, R) \<Longrightarrow>
   V = visited_global (snd (concurrent_discover w creds scheds seed_ip max_depth max_workers s)) \<and>
   R = results_global (snd (concurrent_discover w creds scheds seed_ip max_depth max_workers s))"
  by (auto simp: concurrent_discover_def split: prod.splits option.splits)

lemma concurrent_discover_returns:
  assumes "0 < max_workers"
  shows "fst (concurrent_discover w creds scheds seed_ip max_depth max_workers s) =
     Inr (visited_global (snd (concurrent_discover w creds scheds seed_ip max_depth max_workers s)),
          results_global (snd (concurrent_discover w creds scheds seed_ip max_depth max_workers s)))"
  using discover_loop_returns [OF assms, of w creds scheds max_depth
          "\<lparr>to_visit = [seed_ip], current_depth = 0, globals = s\<rparr>"]
  by (auto simp: concurrent_discover_def split: prod.splits option.splits)

lemma concurrent_discover_grows:
  "grows s (snd (concurrent_discover w creds scheds seed_ip max_depth max_workers s))"
  unfolding concurrent_discover_state
  using discover_loop_grows [of "\<lparr>to_visit = [seed_ip], current_depth = 0, globals = s\<rparr>"]
  by simp

lemma visited_seed_level:
  assumes "seed_ip \<in> set (visited_global s)"
  shows "next_to_visit (run_level w creds sched [seed_ip] s) = []"
    and "visited_global (shared_state (run_level w creds sched [seed_ip] s)) = visited_global s"
    and "results_global (shared_state (run_level w creds sched [seed_ip] s)) = results_global s"
  unfolding run_level_single using assms by (simp_all add: discover_single_def)

lemma visited_seed_run:
  assumes "seed_ip \<in> set (visited_global s)"
  shows "visited_global (snd (concurrent_discover w creds scheds seed_ip max_depth max_workers s)) =
           visited_global s \<and>
         results_global (snd (concurrent_discover w creds scheds seed_ip max_depth max_workers s)) =
           results_global s"
proof -
  let ?st0 = "\<lparr>to_visit = [seed_ip], current_depth = 0, globals = s\<rparr>"
  let ?s' = "log_add [(INFO, ''Starting discovery depth '' @ show_nat (current_depth ?st0) @
               '' with '' @ show_nat (length (to_visit ?st0)) @ '' device(s)'')] (globals ?st0)"
  let ?ls = "run_level w creds (scheds (current_depth ?st0)) (to_visit ?st0) ?s'"
  let ?st1 = "\<lparr>to_visit = next_to_visit ?ls, current_depth = Suc (current_depth ?st0),
               globals = shared_state ?ls\<rparr>"
  show ?thesis
  proof (cases "int (current_depth ?st0) \<le> max_depth \<and> to_visit ?st0 \<noteq> []")
    case False
    from discover_loop_stop [OF False] show ?thesis
      unfolding concurrent_discover_state by simp
  next
    case True
    show ?thesis
    proof (cases "max_workers \<le> 0")
      case True
      from discover_loop_error [OF \<open>int (current_depth ?st0) \<le> max_depth \<and> to_visit ?st0 \<noteq> []\<close> True]
      show ?thesis
        unfolding concurrent_discover_state by simp
    next
      case False
      have v: "seed_ip \<in> set (visited_global ?s')" using assms by simp
      have "to_visit ?st1 = []"
        using visited_seed_level(1) [OF v] by simp
      then have stop: "\<not> (int (current_depth ?st1) \<le> max_depth \<and> to_visit ?st1 \<noteq> [])"
        by simp
      have "discover_loop w creds scheds max_depth max_workers ?st0 = (None, ?st1)"
        unfolding discover_loop_step [OF True False] by (rule discover_loop_stop [OF stop])
      then show ?thesis
        unfolding concurrent_discover_state
        using visited_seed_level(2,3) [OF v] by simp
    qed
  qed
qed

text \<open>
  Claim C10. \<open>visited_global\<close> and \<open>results_global\<close> are never reset: a call of
  \<open>concurrent_discover\<close> starts from the shared state it finds and leaves a state that
  only has more in it, and what it returns are the two globals of that state. So for two
  successive calls, whatever their arguments, the visited set returned by the second call
  includes the one returned by the first, the results returned by the second start with
  those returned by the first, and if the seed of the second call was in the visited set
  after the first, the second call adds no record and no address.
\<close>

theorem globals_persist:
  "grows s (snd (concurrent_discover w1 creds1 scheds1 seed1 depth1 workers1 s)) \<and>
   (\<forall>V1 R1 V2 R2.
      fst (concurrent_discover w1 creds1 scheds1 seed1 depth1 workers1 s) = Inr (V1, R1) \<and>
      fst (concurrent_discover w2 creds2 scheds2 seed2 depth2 workers2
             (snd (concurrent_discover w1 creds1 scheds1 seed1 depth1 workers1 s))) =
        Inr (V2, R2) \<longrightarrow>
      V1 = visited_global (snd (concurrent_discover w1 creds1 scheds1 seed1 depth1 workers1 s)) \<and>
      R1 = results_global (snd (concurrent_discover w1 creds1 scheds1 seed1 depth1 workers1 s)) \<and>
      set V1 \<subseteq> set V2 \<and> (\<exists>new. R2 = R1 @ new) \<and>
      (seed2 \<in> set V1 \<longrightarrow> V2 = V1 \<and> R2 = R1))"
proof (intro conjI allI impI)
  show "grows s (snd (concurrent_discover w1 creds1 scheds1 seed1 depth1 workers1 s))"
    by (rule concurrent_discover_grows)
next
  fix V1 R1 V2 R2
  let ?s1 = "snd (concurrent_discover w1 creds1 scheds1 seed1 depth1 workers1 s)"
  let ?s2 = "snd (concurrent_discover w2 creds2 scheds2 seed2 depth2 workers2 ?s1)"
  assume "fst (concurrent_discover w1 creds1 scheds1 seed1 depth1 workers1 s) = Inr (V1, R1) \<and>
      fst (concurrent_discover w2 creds2 scheds2 seed2 depth2 workers2 ?s1) = Inr (V2, R2)"
  then have r1: "fst (concurrent_discover w1 creds1 scheds1 seed1 depth1 workers1 s) = Inr (V1, R1)"
    and r2: "fst (concurrent_discover w2 creds2 scheds2 seed2 depth2 workers2 ?s1) = Inr (V2, R2)"
    by simp_all
  from concurrent_discover_result [OF r1]
  have one: "V1 = visited_global ?s1" "R1 = results_global ?s1" by simp_all
  from concurrent_discover_result [OF r2]
  have two: "V2 = visited_global ?s2" "R2 = results_global ?s2" by simp_all
  have g: "grows ?s1 ?s2"
    by (rule concurrent_discover_grows)
  show "V1 = visited_global ?s1" by (rule one(1))
  show "R1 = results_global ?s1" by (rule one(2))
  show "set V1 \<subseteq> set V2"
    using g unfolding one two grows_def by simp
  show "\<exists>new. R2 = R1 @ new"
    using g unfolding one two grows_def by simp
  show "V2 = V1" if "seed2 \<in> set V1"
    using visited_seed_run [of seed2 ?s1 w2 creds2 scheds2 depth2 workers2] that
    unfolding one two by simp
  show "R2 = R1" if "seed2 \<in> set V1"
    using visited_seed_run [of seed2 ?s1 w2 creds2 scheds2 depth2 workers2] that
    unfolding one two by simp
qed

lemma lab_first_run:
  "fst (concurrent_discover lab_world lab_creds (\<lambda>d. []) ''10.0.0.1'' 0 10 initial_shared) =
     Inr ([''10.0.0.1''], [core_record])"
proof -
  let ?sess = "answering (Inr ''core1#'')
         [(''show lldp neighbors detail'', ''Mgmt 10.0.0.2\<newline>Mgmt 10.0.0.3'')]"
  let ?out = "''Mgmt 10.0.0.2\<newline>Mgmt 10.0.0.3''"
  have x: "extract_all_ips ?out = [''10.0.0.2'', ''10.0.0.3'']"
    by code_simp
  have h: "hostname_of ''core1#'' = ''core1''"
    by code_simp
  have a1: "set (visited_global initial_shared) \<inter> {''10.0.0.1'', ''10.0.0.2'', ''10.0.0.3''} = {}"
    by (simp add: initial_shared_def)
  have a4: "find_prompt ?sess = Inr ''core1#''"
    by (simp add: answering_def)
  have a5: "(case send_command ?sess 0 ''show cdp neighbors detail'' of
         Inl e \<Rightarrow> {} | Inr out \<Rightarrow> set (extract_all_ips out)) \<subseteq>
        {''10.0.0.2'', ''10.0.0.3''}"
    by (simp add: answering_def)
  have a6: "send_command ?sess 1 ''show lldp neighbors detail'' = Inr ?out"
    by (simp add: answering_def)
  have a7: "set (extract_all_ips ?out) = {''10.0.0.2'', ''10.0.0.3''}"
    unfolding x by simp
  have a8: "0 < (10::int)" by simp
  from depth0_scenario [OF a1 lab_detect(1) lab_connect a4 a5 a6 a7 a8, of "\<lambda>d. []"]
  obtain st' where st':
    "discover_loop lab_world lab_creds (\<lambda>d. []) 0 10
       \<lparr>to_visit = [''10.0.0.1''], current_depth = 0, globals = initial_shared\<rparr> = (None, st')"
    "results_global (globals st') =
       results_global initial_shared @ [\<lparr>rec_ip = ''10.0.0.1'', rec_device_type = ''cisco_ios'',
                                    rec_hostname = hostname_of ''core1#''\<rparr>]"
    "visited_global (globals st') = visited_global initial_shared @ [''10.0.0.1'']"
    by blast
  have "fst (concurrent_discover lab_world lab_creds (\<lambda>d. []) ''10.0.0.1'' 0 10 initial_shared) =
      Inr (visited_global (globals st'), results_global (globals st'))"
    unfolding concurrent_discover_def st'(1) by simp
  also have "\<dots> = Inr ([''10.0.0.1''], [core_record])"
    unfolding st'(2,3) h by (simp add: initial_shared_def core_record_def)
  finally show ?thesis .
qed

theorem globals_persist_witness:
  "fst (concurrent_discover lab_world lab_creds (\<lambda>d. []) ''10.0.0.1'' 0 10 initial_shared) =
     Inr ([''10.0.0.1''], [core_record]) \<and>
   fst (concurrent_discover lab_world lab_creds (\<lambda>d. []) ''10.0.0.1'' 1 10
          (snd (concurrent_discover lab_world lab_creds (\<lambda>d. []) ''10.0.0.1'' 0 10
                  initial_shared))) =
     Inr ([''10.0.0.1''], [core_record])"
proof -
  let ?s1 = "snd (concurrent_discover lab_world lab_creds (\<lambda>d. []) ''10.0.0.1'' 0 10
                  initial_shared)"
  let ?s2 = "snd (concurrent_discover lab_world lab_creds (\<lambda>d. []) ''10.0.0.1'' 1 10 ?s1)"
  have r2: "fst (concurrent_discover lab_world lab_creds (\<lambda>d. []) ''10.0.0.1'' 1 10 ?s1) =
      Inr (visited_global ?s2, results_global ?s2)"
    by (rule concurrent_discover_returns) simp
  have seed: "''10.0.0.1'' \<in> set [''10.0.0.1'']" by simp
  from globals_persist [of initial_shared lab_world lab_creds "\<lambda>d. []" "''10.0.0.1''" 0 10
          lab_world lab_creds "\<lambda>d. []" "''10.0.0.1''" 1 10,
          THEN conjunct2, rule_format, OF conjI [OF lab_first_run r2]] seed
  have "visited_global ?s2 = [''10.0.0.1''] \<and> results_global ?s2 = [core_record]"
    by blast
  with lab_first_run r2 show ?thesis by simp
qed

section \<open>Failures inside a worker\<close>

lemma py_get_truthy:
  "py_get v key fallback = Inr x \<Longrightarrow> \<exists>items. v = PDict items"
  by (cases v) simp_all

lemma detect_raises:
  assumes "get_device_cred ip creds = Inr device_cred" and "truthy device_cred"
    and "base_params ip device_cred = Inr params"
    and "autodetect w params = Inl e"
  shows "detect_device_type w ip creds =
           (Inr None, [(ERROR, ''Failed to autodetect device type for '' @ ip @ '': '' @ str e)])"
  using assms by (simp add: detect_device_type_def)

lemma detect_returns:
  assumes "get_device_cred ip creds = Inr device_cred"
    and "truthy device_cred \<longrightarrow> (\<exists>params. base_params ip device_cred = Inr params)"
  shows "\<exists>r lg. detect_device_type w ip creds = (Inr r, lg)"
proof (cases "truthy device_cred")
  case False
  with assms(1) show ?thesis by (simp add: detect_device_type_def)
next
  case True
  with assms(2) obtain params where "base_params ip device_cred = Inr params" by blast
  with assms(1) True show ?thesis
    by (cases "autodetect w params") (simp_all add: detect_device_type_def)
qed

lemma open_session_returns: "\<exists>r lg. open_session w ip device_type params = (Inr r, lg)"
  by (simp add: open_session_def Let_def split: sum.splits option.splits)

lemma open_session_raises:
  "connect_handler w params = Inl e \<Longrightarrow>
   open_session w ip device_type params =
     (Inr None, [(ERROR, ''Failed to connect to '' @ ip @ '' ('' @ device_type @ ''): '' @ str e)])"
  by (simp add: open_session_def)

lemma enable_raises:
  "connect_handler w params = Inr net_connect \<Longrightarrow> map_of params ''secret'' = Some secret \<Longrightarrow>
   truthy secret \<Longrightarrow> enable net_connect = Some e \<Longrightarrow>
   open_session w ip device_type params =
     (Inr None, [(ERROR, ''Failed to connect to '' @ ip @ '' ('' @ device_type @ ''): '' @ str e)])"
  by (simp add: open_session_def)

lemma ssh_connect_returns:
  assumes "get_device_cred ip creds = Inr device_cred"
    and "truthy device_cred \<longrightarrow> (\<exists>params. device_params ip device_cred device_type = Inr params)"
  shows "\<exists>r lg. ssh_connect w ip creds device_type = (Inr r, lg)"
proof (cases "truthy device_cred")
  case False
  with assms(1) show ?thesis by (simp add: ssh_connect_def)
next
  case True
  with assms(2) obtain params where p: "device_params ip device_cred device_type = Inr params"
    by blast
  then obtain username where "py_get device_cred ''username'' (PStr []) = Inr username"
    by (auto simp: device_params_def split: sum.splits)
  then obtain items where d: "device_cred = PDict items"
    using py_get_truthy by blast
  show ?thesis
    using assms(1) True p open_session_returns
    by (simp add: ssh_connect_def d)
qed

lemma ssh_connect_password:
  assumes "get_device_cred ip creds = Inr device_cred" and "truthy device_cred"
    and "device_params ip device_cred device_type = Inr params"
    and "py_get device_cred ''auth_method'' (PStr ''password'') = Inr (PStr ''password'')"
    and "py_get device_cred ''password'' (PStr []) = Inr password"
  shows "ssh_connect w ip creds device_type =
           open_session w ip device_type (params @ [(''password'', password)])"
  using assms by (simp add: ssh_connect_def)

lemma ssh_connect_key:
  assumes "get_device_cred ip creds = Inr device_cred" and "truthy device_cred"
    and "device_params ip device_cred device_type = Inr params"
    and "py_get device_cred ''auth_method'' (PStr ''password'') = Inr (PStr ''ssh_key'')"
    and "py_get device_cred ''ssh_key_file'' PNone = Inr key_file"
  shows "ssh_connect w ip creds device_type =
           open_session w ip device_type
             (params @ [(''use_keys'', PBool True), (''key_file'', key_file)])"
  using assms by (simp add: ssh_connect_def)

lemma command_raises:
  assumes "dict_get commands proto = Some cmd" and "cmd \<noteq> []"
    and "\<not> (device_type = ''juniper'' \<and> proto = ''lldp'')"
    and "send_command net_connect n cmd = Inl e"
  shows "run_proto w net_connect ip device_type commands (neighbor_ips, n, lg) proto =
           (neighbor_ips, Suc n,
            lg @ [(ERROR, ''Failed to run '' @ [CHR 0x27] @ cmd @ [CHR 0x27] @ '' on '' @ ip @
                          '': '' @ str e)])"
  using assms by (auto simp: run_proto_def)

lemma detection_failed:
  assumes "fst (detect_device_type w ip creds) = Inr None" and "ip \<notin> set (visited_global s)"
  shows "fst (discover_single w ip creds s) = Inr ([], [])"
    and "visited_global (snd (discover_single w ip creds s)) = visited_global s @ [ip]"
    and "results_global (snd (discover_single w ip creds s)) = results_global s"
    and "(WARNING, ''Skipping '' @ ip @ '': unsupported or undetected device type '' @
            [CHR 0x27] @ ''None'' @ [CHR 0x27]) \<in> set (logged (snd (discover_single w ip creds s)))"
proof -
  obtain dlog where d: "detect_device_type w ip creds = (Inr None, dlog)"
    using assms(1) by (cases "detect_device_type w ip creds") simp
  show "fst (discover_single w ip creds s) = Inr ([], [])"
    using assms(2) d by (simp add: discover_single_def Let_def)
  show "visited_global (snd (discover_single w ip creds s)) = visited_global s @ [ip]"
    using assms(2) d by (simp add: discover_single_def Let_def)
  show "results_global (snd (discover_single w ip creds s)) = results_global s"
    using assms(2) d by (simp add: discover_single_def Let_def)
  show "(WARNING, ''Skipping '' @ ip @ '': unsupported or undetected device type '' @
            [CHR 0x27] @ ''None'' @ [CHR 0x27]) \<in> set (logged (snd (discover_single w ip creds s)))"
    using assms(2) d by (simp add: discover_single_def Let_def show_opt_def)
qed

lemma detection_failed_level:
  assumes "fst (detect_device_type w ip creds) = Inr None" and "ip \<notin> set (visited_global s)"
  shows "next_to_visit (run_level w creds sched [ip] s) = []"
  unfolding run_level_single detection_failed(1) [OF assms] by simp

lemma connection_failed:
  assumes "fst (detect_device_type w ip creds) = Inr (Some device_type)"
    and "device_type \<noteq> []" and "map_of VENDOR_COMMANDS device_type \<noteq> None"
    and "fst (ssh_connect w ip creds device_type) = Inr None"
    and "ip \<notin> set (visited_global s)"
  shows "fst (discover_single w ip creds s) = Inr ([], []) \<and>
         visited_global (snd (discover_single w ip creds s)) = visited_global s @ [ip] \<and>
         results_global (snd (discover_single w ip creds s)) = results_global s"
proof -
  obtain dlog where d: "detect_device_type w ip creds = (Inr (Some device_type), dlog)"
    using assms(1) by (cases "detect_device_type w ip creds") simp
  obtain clog where c: "ssh_connect w ip creds device_type = (Inr None, clog)"
    using assms(4) by (cases "ssh_connect w ip creds device_type") simp
  obtain commands where t: "map_of VENDOR_COMMANDS device_type = Some commands"
    using assms(3) by blast
  show ?thesis
    using assms(2,5) d c t by (simp add: discover_single_def Let_def)
qed

lemma commands_contained:
  assumes "fst (detect_device_type w ip creds) = Inr (Some device_type)"
    and "fst (ssh_connect w ip creds device_type) = Inr (Some net_connect)"
    and "find_prompt net_connect = Inr prompt"
  shows "\<exists>r. fst (discover_single w ip creds s) = Inr r"
proof -
  obtain dlog where d: "detect_device_type w ip creds = (Inr (Some device_type), dlog)"
    using assms(1) by (cases "detect_device_type w ip creds") simp
  obtain clog where c: "ssh_connect w ip creds device_type = (Inr (Some net_connect), clog)"
    using assms(2) by (cases "ssh_connect w ip creds device_type") simp
  obtain found qlog where q: "query_neighbors w net_connect ip device_type = (found, qlog)"
    by (cases "query_neighbors w net_connect ip device_type")
  show ?thesis
    using d c q assms(3) by (simp add: discover_single_def Let_def)
qed

text \<open>
  Claim C7, as the source has it. Whatever the platform detector does, once the
  credentials of the address have been read \<open>detect_device_type\<close> returns, and an
  exception of the detector is logged as an error and turned into the answer \<open>None\<close>.
  In the same way \<open>ssh_connect\<close> returns whatever \<open>ConnectHandler\<close> and \<open>enable\<close> do, and
  an exception of either is logged as an error and turned into \<open>None\<close>. A command that
  raises is logged as an error and the protocol loop goes on, so that a worker that has
  read the prompt of its session returns normally, whatever its commands do. When
  detection fails for an address that is not yet visited, the visited set gains the
  address, no record is made, a warning is logged, and the worker returns the empty
  neighbour set; so this worker adds nothing to the next frontier, and a level that holds
  this address alone leaves the next frontier empty. The same holds when the connection
  fails.
\<close>

theorem worker_failures_contained:
  "(\<forall>device_cred.
      get_device_cred ip creds = Inr device_cred \<and>
      (truthy device_cred \<longrightarrow> (\<exists>params. base_params ip device_cred = Inr params)) \<longrightarrow>
      (\<exists>r lg. detect_device_type w ip creds = (Inr r, lg))) \<and>
   (\<forall>e device_cred params.
      get_device_cred ip creds = Inr device_cred \<and> truthy device_cred \<and>
      base_params ip device_cred = Inr params \<and> autodetect w params = Inl e \<longrightarrow>
      detect_device_type w ip creds =
        (Inr None, [(ERROR, ''Failed to autodetect device type for '' @ ip @ '': '' @ str e)])) \<and>
   (\<forall>device_cred device_type.
      get_device_cred ip creds = Inr device_cred \<and>
      (truthy device_cred \<longrightarrow>
         (\<exists>params. device_params ip device_cred device_type = Inr params)) \<longrightarrow>
      (\<exists>r lg. ssh_connect w ip creds device_type = (Inr r, lg))) \<and>
   (\<forall>device_cred device_type params password.
      get_device_cred ip creds = Inr device_cred \<and> truthy device_cred \<and>
      device_params ip device_cred device_type = Inr params \<and>
      py_get device_cred ''auth_method'' (PStr ''password'') = Inr (PStr ''password'') \<and>
      py_get device_cred ''password'' (PStr []) = Inr password \<longrightarrow>
      ssh_connect w ip creds device_type =
        open_session w ip device_type (params @ [(''password'', password)])) \<and>
   (\<forall>device_cred device_type params key_file.
      get_device_cred ip creds = Inr device_cred \<and> truthy device_cred \<and>
      device_params ip device_cred device_type = Inr params \<and>
      py_get device_cred ''auth_method'' (PStr ''password'') = Inr (PStr ''ssh_key'') \<and>
      py_get device_cred ''ssh_key_file'' PNone = Inr key_file \<longrightarrow>
      ssh_connect w ip creds device_type =
        open_session w ip device_type
          (params @ [(''use_keys'', PBool True), (''key_file'', key_file)])) \<and>
   (\<forall>e device_type params.
      connect_handler w params = Inl e \<longrightarrow>
      open_session w ip device_type params =
        (Inr None,
         [(ERROR, ''Failed to connect to '' @ ip @ '' ('' @ device_type @ ''): '' @ str e)])) \<and>
   (\<forall>e device_type params net_connect secret.
      connect_handler w params = Inr net_connect \<and> map_of params ''secret'' = Some secret \<and>
      truthy secret \<and> enable net_connect = Some e \<longrightarrow>
      open_session w ip device_type params =
        (Inr None,
         [(ERROR, ''Failed to connect to '' @ ip @ '' ('' @ device_type @ ''): '' @ str e)])) \<and>
   (\<forall>e net_connect device_type commands proto cmd neighbor_ips n lg.
      dict_get commands proto = Some cmd \<and> cmd \<noteq> [] \<and>
      \<not> (device_type = ''juniper'' \<and> proto = ''lldp'') \<and>
      send_command net_connect n cmd = Inl e \<longrightarrow>
      run_proto w net_connect ip device_type commands (neighbor_ips, n, lg) proto =
        (neighbor_ips, Suc n,
         lg @ [(ERROR, ''Failed to run '' @ [CHR 0x27] @ cmd @ [CHR 0x27] @ '' on '' @ ip @
                       '': '' @ str e)])) \<and>
   (\<forall>device_type net_connect prompt.
      fst (detect_device_type w ip creds) = Inr (Some device_type) \<and>
      fst (ssh_connect w ip creds device_type) = Inr (Some net_connect) \<and>
      find_prompt net_connect = Inr prompt \<longrightarrow>
      (\<exists>r. fst (discover_single w ip creds s) = Inr r)) \<and>
   (fst (detect_device_type w ip creds) = Inr None \<and> ip \<notin> set (visited_global s) \<longrightarrow>
      fst (discover_single w ip creds s) = Inr ([], []) \<and>
      visited_global (snd (discover_single w ip creds s)) = visited_global s @ [ip] \<and>
      results_global (snd (discover_single w ip creds s)) = results_global s \<and>
      (WARNING, ''Skipping '' @ ip @ '': unsupported or undetected device type '' @
          [CHR 0x27] @ ''None'' @ [CHR 0x27]) \<in> set (logged (snd (discover_single w ip creds s))) \<and>
      (\<forall>i ls. next_to_visit (collect i (fst (discover_single w ip creds s)) ls) =
                next_to_visit ls) \<and>
      (\<forall>sched. next_to_visit (run_level w creds sched [ip] s) = [])) \<and>
   (\<forall>device_type.
      fst (detect_device_type w ip creds) = Inr (Some device_type) \<and> device_type \<noteq> [] \<and>
      map_of VENDOR_COMMANDS device_type \<noteq> None \<and>
      fst (ssh_connect w ip creds device_type) = Inr None \<and> ip \<notin> set (visited_global s) \<longrightarrow>
      fst (discover_single w ip creds s) = Inr ([], []) \<and>
      visited_global (snd (discover_single w ip creds s)) = visited_global s @ [ip] \<and>
      results_global (snd (discover_single w ip creds s)) = results_global s)"
proof (intro conjI allI impI)
  fix device_cred
  assume "get_device_cred ip creds = Inr device_cred \<and>
      (truthy device_cred \<longrightarrow> (\<exists>params. base_params ip device_cred = Inr params))"
  then show "\<exists>r lg. detect_device_type w ip creds = (Inr r, lg)"
    by (elim conjE) (rule detect_returns; assumption)
next
  fix e device_cred params
  assume "get_device_cred ip creds = Inr device_cred \<and> truthy device_cred \<and>
      base_params ip device_cred = Inr params \<and> autodetect w params = Inl e"
  then show "detect_device_type w ip creds =
        (Inr None, [(ERROR, ''Failed to autodetect device type for '' @ ip @ '': '' @ str e)])"
    by (elim conjE) (rule detect_raises; assumption)
next
  fix device_cred device_type
  assume "get_device_cred ip creds = Inr device_cred \<and>
      (truthy device_cred \<longrightarrow>
         (\<exists>params. device_params ip device_cred device_type = Inr params))"
  then show "\<exists>r lg. ssh_connect w ip creds device_type = (Inr r, lg)"
    by (elim conjE) (rule ssh_connect_returns; assumption)
next
  fix device_cred device_type params password
  assume "get_device_cred ip creds = Inr device_cred \<and> truthy device_cred \<and>
      device_params ip device_cred device_type = Inr params \<and>
      py_get device_cred ''auth_method'' (PStr ''password'') = Inr (PStr ''password'') \<and>
      py_get device_cred ''password'' (PStr []) = Inr password"
  then show "ssh_connect w ip creds device_type =
        open_session w ip device_type (params @ [(''password'', password)])"
    by (elim conjE) (rule ssh_connect_password; assumption)
next
  fix device_cred device_type params key_file
  assume "get_device_cred ip creds = Inr device_cred \<and> truthy device_cred \<and>
      device_params ip device_cred device_type = Inr params \<and>
      py_get device_cred ''auth_method'' (PStr ''password'') = Inr (PStr ''ssh_key'') \<and>
      py_get device_cred ''ssh_key_file'' PNone = Inr key_file"
  then show "ssh_connect w ip creds device_type =
        open_session w ip device_type
          (params @ [(''use_keys'', PBool True), (''key_file'', key_file)])"
    by (elim conjE) (rule ssh_connect_key; assumption)
next
  fix e device_type params
  assume "connect_handler w params = Inl e"
  then show "open_session w ip device_type params =
        (Inr None,
         [(ERROR, ''Failed to connect to '' @ ip @ '' ('' @ device_type @ ''): '' @ str e)])"
    by (rule open_session_raises)
next
  fix e device_type params net_connect secret
  assume "connect_handler w params = Inr net_connect \<and> map_of params ''secret'' = Some secret \<and>
      truthy secret \<and> enable net_connect = Some e"
  then show "open_session w ip device_type params =
        (Inr None,
         [(ERROR, ''Failed to connect to '' @ ip @ '' ('' @ device_type @ ''): '' @ str e)])"
    by (elim conjE) (rule enable_raises; assumption)
next
  fix e and net_connect :: session and device_type commands proto cmd neighbor_ips n lg
  assume "dict_get commands proto = Some cmd \<and> cmd \<noteq> [] \<and>
      \<not> (device_type = ''juniper'' \<and> proto = ''lldp'') \<and>
      send_command net_connect n cmd = Inl e"
  then show "run_proto w net_connect ip device_type commands (neighbor_ips, n, lg) proto =
        (neighbor_ips, Suc n,
         lg @ [(ERROR, ''Failed to run '' @ [CHR 0x27] @ cmd @ [CHR 0x27] @ '' on '' @ ip @
                       '': '' @ str e)])"
    by (elim conjE) (rule command_raises; assumption)
next
  fix device_type net_connect prompt
  assume "fst (detect_device_type w ip creds) = Inr (Some device_type) \<and>
      fst (ssh_connect w ip creds device_type) = Inr (Some net_connect) \<and>
      find_prompt net_connect = Inr prompt"
  then show "\<exists>r. fst (discover_single w ip creds s) = Inr r"
    by (elim conjE) (rule commands_contained; assumption)
next
  assume a: "fst (detect_device_type w ip creds) = Inr None \<and> ip \<notin> set (visited_global s)"
  then have d: "fst (detect_device_type w ip creds) = Inr None"
    and v: "ip \<notin> set (visited_global s)"
    by simp_all
  show "fst (discover_single w ip creds s) = Inr ([], [])"
    by (rule detection_failed(1) [OF d v])
  show "visited_global (snd (discover_single w ip creds s)) = visited_global s @ [ip]"
    by (rule detection_failed(2) [OF d v])
  show "results_global (snd (discover_single w ip creds s)) = results_global s"
    by (rule detection_failed(3) [OF d v])
  show "(WARNING, ''Skipping '' @ ip @ '': unsupported or undetected device type '' @
          [CHR 0x27] @ ''None'' @ [CHR 0x27]) \<in> set (logged (snd (discover_single w ip creds s)))"
    by (rule detection_failed(4) [OF d v])
  show "next_to_visit (collect i (fst (discover_single w ip creds s)) ls) = next_to_visit ls"
    for i ls
    unfolding detection_failed(1) [OF d v] by simp
  show "next_to_visit (run_level w creds sched [ip] s) = []" for sched
    by (rule detection_failed_level [OF d v])
next
  fix device_type
  assume "fst (detect_device_type w ip creds) = Inr (Some device_type) \<and> device_type \<noteq> [] \<and>
      map_of VENDOR_COMMANDS device_type \<noteq> None \<and>
      fst (ssh_connect w ip creds device_type) = Inr None \<and> ip \<notin> set (visited_global s)"
  then have c: "fst (discover_single w ip creds s) = Inr ([], []) \<and>
         visited_global (snd (discover_single w ip creds s)) = visited_global s @ [ip] \<and>
         results_global (snd (discover_single w ip creds s)) = results_global s"
    by (elim conjE) (rule connection_failed; assumption)
  from c show "fst (discover_single w ip creds s) = Inr ([], [])" by simp
  from c show "visited_global (snd (discover_single w ip creds s)) = visited_global s @ [ip]"
    by simp
  from c show "results_global (snd (discover_single w ip creds s)) = results_global s" by simp
qed

theorem worker_failures_contained_witness:
  "detect_device_type lab_world ''10.0.0.3'' lab_creds =
     (Inr None, [(ERROR, ''Failed to autodetect device type for 10.0.0.3: timed out'')]) \<and>
   fst (discover_single lab_world ''10.0.0.3'' lab_creds initial_shared) = Inr ([], []) \<and>
   visited_global (snd (discover_single lab_world ''10.0.0.3'' lab_creds initial_shared)) =
     [''10.0.0.3''] \<and>
   results_global (snd (discover_single lab_world ''10.0.0.3'' lab_creds initial_shared)) = [] \<and>
   next_to_visit (run_level lab_world lab_creds [Run 0, Take 0] [''10.0.0.3''] initial_shared) =
     [] \<and>
   ssh_connect locked_world ''10.0.0.1'' lab_creds ''cisco_ios'' =
     (Inr None,
      [(ERROR, ''Failed to connect to 10.0.0.1 (cisco_ios): Authentication failed.'')]) \<and>
   fst (discover_single locked_world ''10.0.0.1'' lab_creds initial_shared) = Inr ([], []) \<and>
   visited_global (snd (discover_single locked_world ''10.0.0.1'' lab_creds initial_shared)) =
     [''10.0.0.1''] \<and>
   results_global (snd (discover_single locked_world ''10.0.0.1'' lab_creds initial_shared)) = []"
proof -
  let ?entry = "PDict [(PStr ''username'', PStr ''admin''), (PStr ''password'', PStr ''pw'')]"
  let ?base = "[(''device_type'', PStr ''autodetect''), (''host'', PStr ''10.0.0.3''),
      (''username'', PStr ''admin''), (''password'', PStr ''pw''), (''port'', PInt 22),
      (''timeout'', PInt 10)]"
  let ?dev = "[(''device_type'', PStr ''cisco_ios''), (''host'', PStr ''10.0.0.1''),
      (''username'', PStr ''admin''), (''port'', PInt 22), (''secret'', PStr []),
      (''timeout'', PInt 10), (''banner_timeout'', PInt 200), (''auth_timeout'', PInt 30)]"
  note T = worker_failures_contained [of "''10.0.0.3''" lab_creds lab_world initial_shared]
  note L = worker_failures_contained [of "''10.0.0.1''" lab_creds locked_world initial_shared]
  have cred: "get_device_cred ''10.0.0.3'' lab_creds = Inr ?entry"
    by (simp add: get_device_cred_def lab_creds_def)
  have cred1: "get_device_cred ''10.0.0.1'' lab_creds = Inr ?entry"
    by (simp add: get_device_cred_def lab_creds_def)
  have tr: "truthy ?entry" by simp
  have base: "base_params ''10.0.0.3'' ?entry = Inr ?base"
    by (simp add: base_params_def)
  have auto_fails: "autodetect lab_world ?base = Inl (Exception ''timed out'')"
    by (simp add: lab_world_def network_def host_of_def)
  have new: "''10.0.0.3'' \<notin> set (visited_global initial_shared)"
    by (simp add: initial_shared_def)
  from T [THEN conjunct2, THEN conjunct1, rule_format, of ?entry ?base "Exception ''timed out''"]
    cred tr base auto_fails
  have d: "detect_device_type lab_world ''10.0.0.3'' lab_creds =
     (Inr None, [(ERROR, ''Failed to autodetect device type for 10.0.0.3: timed out'')])"
    by simp
  then have dn: "fst (detect_device_type lab_world ''10.0.0.3'' lab_creds) = Inr None"
    by simp
  note F = T [THEN conjunct2, THEN conjunct2, THEN conjunct2, THEN conjunct2, THEN conjunct2,
              THEN conjunct2, THEN conjunct2, THEN conjunct2, THEN conjunct2, THEN conjunct1,
              rule_format, OF conjI [OF dn new]]
  have dev: "device_params ''10.0.0.1'' ?entry ''cisco_ios'' = Inr ?dev"
    by (simp add: device_params_def)
  have am: "py_get ?entry ''auth_method'' (PStr ''password'') = Inr (PStr ''password'')"
    by simp
  have pw: "py_get ?entry ''password'' (PStr []) = Inr (PStr ''pw'')"
    by simp
  from L [THEN conjunct2, THEN conjunct2, THEN conjunct2, THEN conjunct1, rule_format,
          of ?entry "''cisco_ios''" ?dev "PStr ''pw''"] cred1 tr dev am pw
  have c1: "ssh_connect locked_world ''10.0.0.1'' lab_creds ''cisco_ios'' =
      open_session locked_world ''10.0.0.1'' ''cisco_ios'' (?dev @ [(''password'', PStr ''pw'')])"
    by simp
  have refused: "connect_handler locked_world (?dev @ [(''password'', PStr ''pw'')]) =
      Inl (Exception ''Authentication failed.'')"
    by (simp add: locked_world_def)
  from L [THEN conjunct2, THEN conjunct2, THEN conjunct2, THEN conjunct2, THEN conjunct2,
          THEN conjunct1, rule_format, OF refused, of "''cisco_ios''"]
  have c2: "open_session locked_world ''10.0.0.1'' ''cisco_ios''
        (?dev @ [(''password'', PStr ''pw'')]) =
      (Inr None,
       [(ERROR, ''Failed to connect to 10.0.0.1 (cisco_ios): Authentication failed.'')])"
    by simp
  have c: "ssh_connect locked_world ''10.0.0.1'' lab_creds ''cisco_ios'' =
      (Inr None,
       [(ERROR, ''Failed to connect to 10.0.0.1 (cisco_ios): Authentication failed.'')])"
    unfolding c1 c2 ..
  have det1: "fst (detect_device_type locked_world ''10.0.0.1'' lab_creds) =
      Inr (Some ''cisco_ios'')"
    by (simp add: detect_device_type_def locked_world_def lab_world_def network_def host_of_def
          lab_creds_def get_device_cred_def base_params_def)
  have hyp: "fst (detect_device_type locked_world ''10.0.0.1'' lab_creds) =
        Inr (Some ''cisco_ios'') \<and> ''cisco_ios'' \<noteq> [] \<and>
      map_of VENDOR_COMMANDS ''cisco_ios'' \<noteq> None \<and>
      fst (ssh_connect locked_world ''10.0.0.1'' lab_creds ''cisco_ios'') = Inr None \<and>
      ''10.0.0.1'' \<notin> set (visited_global initial_shared)"
    using det1 c by (simp add: VENDOR_COMMANDS_def initial_shared_def)
  note C = L [THEN conjunct2, THEN conjunct2, THEN conjunct2, THEN conjunct2, THEN conjunct2,
              THEN conjunct2, THEN conjunct2, THEN conjunct2, THEN conjunct2, THEN conjunct2,
              rule_format, OF hyp]
  from d F c C show ?thesis
    by (simp add: initial_shared_def)
qed

text \<open>
  A level with the frontier \<open>{10.0.0.2, 10.0.0.3}\<close>, after the seed \<open>10.0.0.1\<close> has been
  visited. The worker of \<open>10.0.0.2\<close> finishes and its result is taken while the worker of
  \<open>10.0.0.3\<close> has not yet marked its address; then detection fails for \<open>10.0.0.3\<close>. The
  address is visited, has no record, and is in the next frontier.
\<close>

theorem detection_failure_enters_frontier:
  "fst (detect_device_type lab_world ''10.0.0.3'' lab_creds) = Inr None \<and>
   next_to_visit
     (run_level lab_world lab_creds
        [Run 0, Run 0, Run 0, Run 0, Take 0, Run 1, Run 1, Take 1]
        [''10.0.0.2'', ''10.0.0.3''] (initial_shared\<lparr>visited_global := [''10.0.0.1'']\<rparr>)) =
     [''10.0.0.3''] \<and>
   visited_global (shared_state
     (run_level lab_world lab_creds
        [Run 0, Run 0, Run 0, Run 0, Take 0, Run 1, Run 1, Take 1]
        [''10.0.0.2'', ''10.0.0.3''] (initial_shared\<lparr>visited_global := [''10.0.0.1'']\<rparr>))) =
     [''10.0.0.1'', ''10.0.0.2'', ''10.0.0.3''] \<and>
   map rec_ip (results_global (shared_state
     (run_level lab_world lab_creds
        [Run 0, Run 0, Run 0, Run 0, Take 0, Run 1, Run 1, Take 1]
        [''10.0.0.2'', ''10.0.0.3''] (initial_shared\<lparr>visited_global := [''10.0.0.1'']\<rparr>)))) =
     [''10.0.0.2'']"
  by code_simp

section \<open>Attempts per address\<close>

text \<open>
  Claim C1. The first step of the worker only tests whether the address is in
  \<open>visited_global\<close>; the address is added later, after detection or connection has
  failed or after the prompt has been read, and not at all when reading the prompt
  raises. Two runs of the source show what follows. In the first, \<open>concurrent_discover\<close>
  with seed \<open>10.0.0.1\<close> and depth 2 meets \<open>10.0.0.2\<close> at level 1, where reading its prompt
  raises: the address stays unvisited, \<open>10.0.0.3\<close> reports it again, and at level 2 it is
  discovered a second time. In the second, two worker threads are started on the same
  address and both make the membership test before either has added the address: both
  claim it and both append a record.
\<close>

theorem second_attempt:
  "count_list
     (logged (snd (concurrent_discover flaky_world lab_creds in_turn ''10.0.0.1'' 2 10
                     initial_shared)))
     (INFO, ''Discovering 10.0.0.2'') = 2 \<and>
   ''10.0.0.2'' \<notin> set (visited_global
     (snd (concurrent_discover flaky_world lab_creds in_turn ''10.0.0.1'' 2 10 initial_shared))) \<and>
   map rec_ip (results_global (shared_state
     (fold (level_step lab_world lab_creds)
        [Run 0, Run 1, Run 0, Run 1, Run 0, Run 1, Run 0, Run 1, Take 0, Take 1]
        (level_init [''10.0.0.1'', ''10.0.0.1''] initial_shared)))) =
     [''10.0.0.1'', ''10.0.0.1'']"
  by code_simp

section \<open>The next frontier\<close>

lemma level_inv_init: "level_inv (visited_global s) (level_init frontier s)"
  by (simp add: level_inv_def level_init_def)

lemma piece_Done_keeps:
  "wk = Done r \<Longrightarrow> piece w creds (wk, s) = (Done r, s)"
  by simp

lemma piece_grows: "grows s (snd (piece w creds (wk, s)))"
  using worker_step_grows [of s w creds wk] by (simp add: piece_def)

lemma level_inv_Run:
  assumes inv: "level_inv V0 ls"
  shows "level_inv V0 (level_step w creds (Run j) ls)"
proof (cases "j < length (futures ls)")
  case False
  then show ?thesis using inv by simp
next
  case True
  let ?p = "piece w creds (futures ls ! j, shared_state ls)"
  let ?fs = "(futures ls)[j := fst ?p]"
  let ?ls' = "ls\<lparr>shared_state := snd ?p, futures := ?fs\<rparr>"
  have step: "level_step w creds (Run j) ls = ?ls'"
    by (rule level_step_Run [OF True])
  have g: "grows (shared_state ls) (snd ?p)"
    by (rule piece_grows)
  have keep: "?fs ! i = futures ls ! i" if "i \<in> set (yielded ls)" for i
  proof (cases "i = j")
    case False
    then show ?thesis by simp
  next
    case True
    from inv that obtain r where "futures ls ! i = Done r"
      unfolding level_inv_def by blast
    with True \<open>j < length (futures ls)\<close> show ?thesis by simp
  qed
  have seen_yielded: "i \<in> set (yielded ls)" if "(i, V) \<in> set (seen ls)" for i V
  proof -
    from that have "i \<in> set (map fst (seen ls))" by force
    with inv show ?thesis unfolding level_inv_def by simp
  qed
  have 1: "distinct (yielded ?ls')"
    using inv by (simp add: level_inv_def)
  have 2: "\<forall>i \<in> set (yielded ?ls'). i < length (futures ?ls') \<and> (\<exists>r. futures ?ls' ! i = Done r)"
    using inv keep by (simp add: level_inv_def)
  have 3: "map fst (seen ?ls') = filter (\<lambda>i. has_returned (futures ?ls' ! i)) (yielded ?ls')"
  proof -
    have "filter (\<lambda>i. has_returned (?fs ! i)) (yielded ls) =
          filter (\<lambda>i. has_returned (futures ls ! i)) (yielded ls)"
      by (rule filter_cong) (simp_all add: keep)
    with inv show ?thesis by (simp add: level_inv_def)
  qed
  have 4: "set (next_to_visit ?ls') =
        (\<Union>(i, V) \<in> set (seen ?ls'). set (neighbors_of (futures ?ls' ! i)) - set V)"
  proof -
    have "(\<Union>(i, V) \<in> set (seen ls). set (neighbors_of (?fs ! i)) - set V) =
          (\<Union>(i, V) \<in> set (seen ls). set (neighbors_of (futures ls ! i)) - set V)"
      using seen_yielded keep by (intro SUP_cong refl) auto
    with inv show ?thesis by (simp add: level_inv_def)
  qed
  have sub: "set (visited_global (shared_state ls)) \<subseteq> set (visited_global (snd ?p))"
    using g unfolding grows_def by blast
  have old5: "\<forall>(i, V) \<in> set (seen ls).
         set V0 \<subseteq> set V \<and> set V \<subseteq> set (visited_global (shared_state ls))"
    using inv unfolding level_inv_def by blast
  have 5: "\<forall>(i, V) \<in> set (seen ?ls').
         set V0 \<subseteq> set V \<and> set V \<subseteq> set (visited_global (shared_state ?ls'))"
  proof (intro ballI)
    fix x assume x: "x \<in> set (seen ?ls')"
    obtain i V where iv: "x = (i, V)" by (cases x)
    from x iv old5 have "set V0 \<subseteq> set V \<and> set V \<subseteq> set (visited_global (shared_state ls))"
      by auto
    with sub show "case x of (i, V) \<Rightarrow>
         set V0 \<subseteq> set V \<and> set V \<subseteq> set (visited_global (shared_state ?ls'))"
      unfolding iv by auto
  qed
  have 6: "\<forall>i \<in> set (yielded ?ls'). \<forall>e. futures ?ls' ! i = Done (Inl e) \<longrightarrow>
         (ERROR, ''Error in thread during discovery: '' @ str e)
           \<in> set (logged (shared_state ?ls'))"
  proof (intro ballI allI impI)
    fix i e
    assume i: "i \<in> set (yielded ?ls')" and e: "futures ?ls' ! i = Done (Inl e)"
    from i have i': "i \<in> set (yielded ls)" by simp
    from e keep [OF i'] have "futures ls ! i = Done (Inl e)" by simp
    with inv i' have "(ERROR, ''Error in thread during discovery: '' @ str e)
           \<in> set (logged (shared_state ls))"
      unfolding level_inv_def by blast
    with g show "(ERROR, ''Error in thread during discovery: '' @ str e)
           \<in> set (logged (shared_state ?ls'))"
      unfolding grows_def by auto
  qed
  have 7: "set V0 \<subseteq> set (visited_global (shared_state ?ls'))"
  proof -
    from inv have "set V0 \<subseteq> set (visited_global (shared_state ls))"
      unfolding level_inv_def by blast
    with sub show ?thesis by auto
  qed
  show ?thesis
    unfolding step level_inv_def using 1 2 3 4 5 6 7 by blast
qed

lemma level_inv_collect_returned:
  assumes inv: "level_inv V0 ls"
    and j: "j < length (futures ls)" "j \<notin> set (yielded ls)"
    and d: "futures ls ! j = Done (Inr (neighbor_ips, claimed))"
  shows "level_inv V0 (collect j (Inr (neighbor_ips, claimed)) ls)"
proof -
  let ?V = "visited_global (shared_state ls)"
  let ?ls' = "ls\<lparr>next_to_visit := set_update (next_to_visit ls) (set_diff neighbor_ips ?V),
                 yielded := yielded ls @ [j], seen := seen ls @ [(j, ?V)]\<rparr>"
  have c: "collect j (Inr (neighbor_ips, claimed)) ls = ?ls'"
    by (simp add: Let_def)
  have 1: "distinct (yielded ?ls')"
    using inv j unfolding level_inv_def by simp
  have 2: "\<forall>i \<in> set (yielded ?ls'). i < length (futures ?ls') \<and> (\<exists>r. futures ?ls' ! i = Done r)"
    using inv j d unfolding level_inv_def by auto
  have 3: "map fst (seen ?ls') = filter (\<lambda>i. has_returned (futures ?ls' ! i)) (yielded ?ls')"
    using inv d unfolding level_inv_def by simp
  have 4: "set (next_to_visit ?ls') =
        (\<Union>(i, V) \<in> set (seen ?ls'). set (neighbors_of (futures ?ls' ! i)) - set V)"
  proof -
    from inv have "set (next_to_visit ls) =
        (\<Union>(i, V) \<in> set (seen ls). set (neighbors_of (futures ls ! i)) - set V)"
      unfolding level_inv_def by blast
    then show ?thesis using d by (simp add: Un_commute)
  qed
  have old5: "\<forall>(i, V) \<in> set (seen ls).
         set V0 \<subseteq> set V \<and> set V \<subseteq> set (visited_global (shared_state ls))"
    using inv unfolding level_inv_def by blast
  have 7: "set V0 \<subseteq> set (visited_global (shared_state ?ls'))"
    using inv unfolding level_inv_def by simp
  have 5: "\<forall>(i, V) \<in> set (seen ?ls').
         set V0 \<subseteq> set V \<and> set V \<subseteq> set (visited_global (shared_state ?ls'))"
    using old5 7 by auto
  have 6: "\<forall>i \<in> set (yielded ?ls'). \<forall>e. futures ?ls' ! i = Done (Inl e) \<longrightarrow>
         (ERROR, ''Error in thread during discovery: '' @ str e)
           \<in> set (logged (shared_state ?ls'))"
    using inv d unfolding level_inv_def by auto
  show ?thesis
    unfolding c level_inv_def using 1 2 3 4 5 6 7 by blast
qed

lemma level_inv_collect_raised:
  assumes inv: "level_inv V0 ls"
    and j: "j < length (futures ls)" "j \<notin> set (yielded ls)"
    and d: "futures ls ! j = Done (Inl e)"
  shows "level_inv V0 (collect j (Inl e) ls)"
proof -
  let ?s = "log_add [(ERROR, ''Error in thread during discovery: '' @ str e)] (shared_state ls)"
  let ?ls' = "ls\<lparr>shared_state := ?s, yielded := yielded ls @ [j]\<rparr>"
  have c: "collect j (Inl e) ls = ?ls'"
    by simp
  have 1: "distinct (yielded ?ls')"
    using inv j unfolding level_inv_def by simp
  have 2: "\<forall>i \<in> set (yielded ?ls'). i < length (futures ?ls') \<and> (\<exists>r. futures ?ls' ! i = Done r)"
    using inv j d unfolding level_inv_def by auto
  have 3: "map fst (seen ?ls') = filter (\<lambda>i. has_returned (futures ?ls' ! i)) (yielded ?ls')"
    using inv d unfolding level_inv_def by simp
  have 4: "set (next_to_visit ?ls') =
        (\<Union>(i, V) \<in> set (seen ?ls'). set (neighbors_of (futures ?ls' ! i)) - set V)"
    using inv unfolding level_inv_def by simp
  have 5: "\<forall>(i, V) \<in> set (seen ?ls').
         set V0 \<subseteq> set V \<and> set V \<subseteq> set (visited_global (shared_state ?ls'))"
    using inv unfolding level_inv_def by simp
  have 6: "\<forall>i \<in> set (yielded ?ls'). \<forall>e. futures ?ls' ! i = Done (Inl e) \<longrightarrow>
         (ERROR, ''Error in thread during discovery: '' @ str e)
           \<in> set (logged (shared_state ?ls'))"
    using inv d unfolding level_inv_def by auto
  have 7: "set V0 \<subseteq> set (visited_global (shared_state ?ls'))"
    using inv unfolding level_inv_def by simp
  show ?thesis
    unfolding c level_inv_def using 1 2 3 4 5 6 7 by blast
qed

lemma level_inv_Collect:
  assumes inv: "level_inv V0 ls"
  shows "level_inv V0 (level_step w creds (Take j) ls)"
proof (cases "j < length (futures ls) \<and> j \<notin> set (yielded ls) \<and> (\<exists>r. futures ls ! j = Done r)")
  case False
  then have "level_step w creds (Take j) ls = ls"
    by (intro level_step_Collect_skip) blast
  with inv show ?thesis by simp
next
  case True
  then obtain r where j: "j < length (futures ls)" "j \<notin> set (yielded ls)"
    and d: "futures ls ! j = Done r" by blast
  have step: "level_step w creds (Take j) ls = collect j r ls"
    using j d by (rule level_step_Collect_Done)
  show ?thesis
  proof (cases r)
    case (Inl e)
    from d have "futures ls ! j = Done (Inl e)" unfolding Inl .
    from level_inv_collect_raised [OF inv j this]
    show ?thesis unfolding step Inl .
  next
    case (Inr nc)
    obtain neighbor_ips claimed where nc: "nc = (neighbor_ips, claimed)" by (cases nc)
    from d have "futures ls ! j = Done (Inr (neighbor_ips, claimed))" unfolding Inr nc .
    from level_inv_collect_returned [OF inv j this]
    show ?thesis unfolding step Inr nc .
  qed
qed

lemma level_inv_step: "level_inv V0 ls \<Longrightarrow> level_inv V0 (level_step w creds a ls)"
  by (cases a) (simp_all only: level_inv_Run level_inv_Collect)

lemma level_inv_fold:
  "level_inv V0 ls \<Longrightarrow> level_inv V0 (fold (level_step w creds) acts ls)"
  by (induction acts arbitrary: ls) (simp_all add: level_inv_step)

lemma done_stable:
  assumes "i < length (futures ls)" and "futures ls ! i = Done r"
  shows "futures (level_step w creds a ls) ! i = Done r"
proof (cases a)
  case (Run j)
  show ?thesis
  proof (cases "j < length (futures ls)")
    case False
    with assms Run show ?thesis by simp
  next
    case True
    show ?thesis
      unfolding Run level_step_Run [OF True]
      using assms by (cases "i = j") simp_all
  qed
next
  case (Take j)
  show ?thesis
  proof (cases "j < length (futures ls) \<and> j \<notin> set (yielded ls) \<and> (\<exists>r. futures ls ! j = Done r)")
    case False
    then have "level_step w creds (Take j) ls = ls"
      by (intro level_step_Collect_skip) blast
    with assms show ?thesis unfolding Take by simp
  next
    case True
    then obtain r' where "j < length (futures ls)" "j \<notin> set (yielded ls)"
      "futures ls ! j = Done r'" by blast
    then have "level_step w creds (Take j) ls = collect j r' ls"
      by (rule level_step_Collect_Done)
    with assms show ?thesis unfolding Take by simp
  qed
qed

lemma yielded_stable:
  assumes "i \<in> set (yielded ls)"
  shows "i \<in> set (yielded (level_step w creds a ls))"
proof (cases a)
  case (Run j)
  show ?thesis
  proof (cases "j < length (futures ls)")
    case False
    with assms Run show ?thesis by simp
  next
    case True
    show ?thesis
      unfolding Run level_step_Run [OF True] using assms by simp
  qed
next
  case (Take j)
  show ?thesis
  proof (cases "j < length (futures ls) \<and> j \<notin> set (yielded ls) \<and> (\<exists>r. futures ls ! j = Done r)")
    case False
    then have "level_step w creds (Take j) ls = ls"
      by (intro level_step_Collect_skip) blast
    with assms show ?thesis unfolding Take by simp
  next
    case True
    then obtain r' where "j < length (futures ls)" "j \<notin> set (yielded ls)"
      "futures ls ! j = Done r'" by blast
    then have "level_step w creds (Take j) ls = collect j r' ls"
      by (rule level_step_Collect_Done)
    with assms show ?thesis unfolding Take by simp
  qed
qed

lemma fold_length [simp]:
  "length (futures (fold (level_step w creds) acts ls)) = length (futures ls)"
  by (induction acts arbitrary: ls) simp_all

lemma finished_stable:
  assumes "i < length (futures ls)" and "\<exists>r. futures ls ! i = Done r"
    and "i \<in> set (yielded ls)"
  shows "(\<exists>r. futures (fold (level_step w creds) acts ls) ! i = Done r) \<and>
         i \<in> set (yielded (fold (level_step w creds) acts ls))"
  using assms
proof (induction acts arbitrary: ls)
  case Nil
  then show ?case by simp
next
  case (Cons a acts)
  from Cons.prems obtain r where r: "futures ls ! i = Done r" by blast
  have 1: "i < length (futures (level_step w creds a ls))"
    using Cons.prems(1) by simp
  have 2: "\<exists>r. futures (level_step w creds a ls) ! i = Done r"
    using done_stable [OF Cons.prems(1) r] by blast
  have 3: "i \<in> set (yielded (level_step w creds a ls))"
    using Cons.prems(3) by (rule yielded_stable)
  from Cons.IH [OF 1 2 3] show ?case by simp
qed

lemma block_finishes:
  assumes i: "i < length (futures ls)"
  shows "(\<exists>r. futures (fold (level_step w creds) [Run i, Run i, Run i, Run i, Take i] ls) ! i
              = Done r) \<and>
         i \<in> set (yielded (fold (level_step w creds) [Run i, Run i, Run i, Run i, Take i] ls))"
proof -
  let ?ls4 = "fold (level_step w creds) [Run i, Run i, Run i, Run i] ls"
  have split: "fold (level_step w creds) [Run i, Run i, Run i, Run i, Take i] ls =
               level_step w creds (Take i) ?ls4"
    by (simp only: fold_simps)
  obtain r s' where p: "piece w creds (piece w creds (piece w creds (piece w creds
                 (futures ls ! i, shared_state ls)))) = (Done r, s')"
    using four_pieces_Done by blast
  have d4: "futures ?ls4 ! i = Done r"
    unfolding run4 [OF i] p using i by simp
  have i4: "i < length (futures ?ls4)"
    using i by simp
  show ?thesis
  proof (cases "i \<in> set (yielded ?ls4)")
    case True
    then have "level_step w creds (Take i) ?ls4 = ?ls4"
      by (intro level_step_Collect_skip) blast
    with True d4 show ?thesis unfolding split by auto
  next
    case False
    have "level_step w creds (Take i) ?ls4 = collect i r ?ls4"
      using i4 False d4 by (rule level_step_Collect_Done)
    with d4 show ?thesis unfolding split by simp
  qed
qed

lemma finish_Suc: "finish (Suc n) = finish n @ [Run n, Run n, Run n, Run n, Take n]"
  by (simp add: finish_def)

lemma finish_finishes:
  assumes "n \<le> length (futures ls)"
  shows "\<forall>i<n. (\<exists>r. futures (fold (level_step w creds) (finish n) ls) ! i = Done r) \<and>
               i \<in> set (yielded (fold (level_step w creds) (finish n) ls))"
  using assms
proof (induction n)
  case 0
  then show ?case by simp
next
  case (Suc n)
  let ?mid = "fold (level_step w creds) (finish n) ls"
  let ?block = "[Run n, Run n, Run n, Run n, Take n]"
  have f: "fold (level_step w creds) (finish (Suc n)) ls = fold (level_step w creds) ?block ?mid"
    unfolding finish_Suc by simp
  have len: "n < length (futures ?mid)" using Suc.prems by simp
  have ih: "\<forall>i<n. (\<exists>r. futures ?mid ! i = Done r) \<and> i \<in> set (yielded ?mid)"
    using Suc.IH Suc.prems by simp
  show ?case
  proof (intro allI impI)
    fix i assume "i < Suc n"
    show "(\<exists>r. futures (fold (level_step w creds) (finish (Suc n)) ls) ! i = Done r) \<and>
          i \<in> set (yielded (fold (level_step w creds) (finish (Suc n)) ls))"
    proof (cases "i = n")
      case True
      show ?thesis unfolding f True by (rule block_finishes [OF len])
    next
      case False
      with \<open>i < Suc n\<close> have "i < n" by simp
      with ih have "\<exists>r. futures ?mid ! i = Done r" "i \<in> set (yielded ?mid)" by simp_all
      moreover have "i < length (futures ?mid)" using \<open>i < n\<close> len by simp
      ultimately show ?thesis unfolding f by (intro finished_stable)
    qed
  qed
qed

lemma neighbors_returned: "neighbors_of wk \<noteq> [] \<Longrightarrow> has_returned wk"
  by (cases wk rule: neighbors_of.cases) simp_all

text \<open>
  Claim C6, as the source has it. Whatever the schedule of a level, when the level ends
  every worker has run to its end and every future has been taken exactly once. The
  subtraction of the visited set is made for each result when that result is taken,
  while other workers of the level may still be running: the next frontier is the union,
  over the workers that returned, of the neighbour set returned minus the visited set as
  it was when that result was taken (the sets kept in \<open>seen\<close>), and each of these
  visited sets lies between the visited set at the start of the level and the one at its
  end; so the next frontier lies between the union of the returned neighbour sets minus
  the final visited set and the same union minus the initial one. A worker that raised
  has its exception logged as an error by the scheduler and contributes no address; the
  other workers of the level are not affected.
\<close>

theorem next_frontier:
  assumes "ls = run_level w creds sched frontier s"
  shows "length (futures ls) = length frontier \<and>
    (\<forall>i<length frontier. \<exists>r. futures ls ! i = Done r) \<and>
    distinct (yielded ls) \<and> set (yielded ls) = {..<length frontier} \<and>
    map fst (seen ls) = filter (\<lambda>i. has_returned (futures ls ! i)) (yielded ls) \<and>
    set (next_to_visit ls) =
      (\<Union>(i, V) \<in> set (seen ls). set (neighbors_of (futures ls ! i)) - set V) \<and>
    (\<forall>(i, V) \<in> set (seen ls).
       set (visited_global s) \<subseteq> set V \<and> set V \<subseteq> set (visited_global (shared_state ls))) \<and>
    (\<forall>i<length frontier. \<forall>e. futures ls ! i = Done (Inl e) \<longrightarrow>
       neighbors_of (futures ls ! i) = [] \<and>
       (ERROR, ''Error in thread during discovery: '' @ str e) \<in> set (logged (shared_state ls))) \<and>
    (\<Union>i<length frontier. set (neighbors_of (futures ls ! i))) -
       set (visited_global (shared_state ls)) \<subseteq> set (next_to_visit ls) \<and>
    set (next_to_visit ls) \<subseteq>
      (\<Union>i<length frontier. set (neighbors_of (futures ls ! i))) - set (visited_global s)"
proof -
  let ?n = "length frontier"
  let ?init = "level_init frontier s"
  let ?mid = "fold (level_step w creds) sched ?init"
  have ls: "ls = fold (level_step w creds) (finish ?n) ?mid"
    unfolding assms run_level_def by simp
  have len: "length (futures ls) = ?n"
    unfolding ls by (simp add: level_init_def)
  have inv: "level_inv (visited_global s) ls"
    unfolding assms run_level_def by (intro level_inv_fold level_inv_init)
  have "?n \<le> length (futures ?mid)"
    by (simp add: level_init_def)
  from finish_finishes [OF this, of w creds]
  have fin: "\<forall>i<?n. (\<exists>r. futures ls ! i = Done r) \<and> i \<in> set (yielded ls)"
    unfolding ls .
  have dist: "distinct (yielded ls)"
    using inv unfolding level_inv_def by blast
  have yl: "set (yielded ls) = {..<?n}"
  proof
    show "set (yielded ls) \<subseteq> {..<?n}"
      using inv len unfolding level_inv_def by auto
    show "{..<?n} \<subseteq> set (yielded ls)"
      using fin by auto
  qed
  have sn: "map fst (seen ls) = filter (\<lambda>i. has_returned (futures ls ! i)) (yielded ls)"
    using inv unfolding level_inv_def by blast
  have nx: "set (next_to_visit ls) =
      (\<Union>(i, V) \<in> set (seen ls). set (neighbors_of (futures ls ! i)) - set V)"
    using inv unfolding level_inv_def by blast
  have vs: "\<forall>(i, V) \<in> set (seen ls).
       set (visited_global s) \<subseteq> set V \<and> set V \<subseteq> set (visited_global (shared_state ls))"
    using inv unfolding level_inv_def by blast
  have er: "\<forall>i<?n. \<forall>e. futures ls ! i = Done (Inl e) \<longrightarrow>
       neighbors_of (futures ls ! i) = [] \<and>
       (ERROR, ''Error in thread during discovery: '' @ str e) \<in> set (logged (shared_state ls))"
  proof (intro allI impI)
    fix i e assume i: "i < ?n" and e: "futures ls ! i = Done (Inl e)"
    from i yl have "i \<in> set (yielded ls)" by simp
    with inv e have "(ERROR, ''Error in thread during discovery: '' @ str e)
        \<in> set (logged (shared_state ls))"
      unfolding level_inv_def by blast
    with e show "neighbors_of (futures ls ! i) = [] \<and>
       (ERROR, ''Error in thread during discovery: '' @ str e) \<in> set (logged (shared_state ls))"
      by simp
  qed
  have lower: "(\<Union>i<?n. set (neighbors_of (futures ls ! i))) -
       set (visited_global (shared_state ls)) \<subseteq> set (next_to_visit ls)"
  proof
    fix x
    assume "x \<in> (\<Union>i<?n. set (neighbors_of (futures ls ! i))) -
       set (visited_global (shared_state ls))"
    then obtain i where i: "i < ?n" and x: "x \<in> set (neighbors_of (futures ls ! i))"
      and nv: "x \<notin> set (visited_global (shared_state ls))" by auto
    from x have "neighbors_of (futures ls ! i) \<noteq> []" by auto
    then have "has_returned (futures ls ! i)" by (rule neighbors_returned)
    with i yl have "i \<in> set (filter (\<lambda>i. has_returned (futures ls ! i)) (yielded ls))"
      by simp
    then have "i \<in> set (map fst (seen ls))" unfolding sn .
    then obtain V where iv: "(i, V) \<in> set (seen ls)" by auto
    with vs have "set V \<subseteq> set (visited_global (shared_state ls))" by auto
    with nv have "x \<notin> set V" by auto
    with x iv show "x \<in> set (next_to_visit ls)" unfolding nx by auto
  qed
  have upper: "set (next_to_visit ls) \<subseteq>
      (\<Union>i<?n. set (neighbors_of (futures ls ! i))) - set (visited_global s)"
  proof
    fix x assume "x \<in> set (next_to_visit ls)"
    then obtain i V where iv: "(i, V) \<in> set (seen ls)"
      and x: "x \<in> set (neighbors_of (futures ls ! i))" and nv: "x \<notin> set V"
      unfolding nx by auto
    from iv have "i \<in> set (map fst (seen ls))" by force
    then have "i \<in> set (yielded ls)" unfolding sn by simp
    then have i: "i < ?n" unfolding yl by simp
    from iv vs have "set (visited_global s) \<subseteq> set V" by auto
    with nv have "x \<notin> set (visited_global s)" by auto
    with i x show "x \<in> (\<Union>i<?n. set (neighbors_of (futures ls ! i))) - set (visited_global s)"
      by auto
  qed
  from len fin dist yl sn nx vs er lower upper show ?thesis
    by blast
qed

lemma raised_Some: "raised wk = Some e \<Longrightarrow> wk = Done (Inl e)"
  by (cases wk rule: raised.cases) simp_all

theorem next_frontier_witness:
  "yielded (run_level flaky_world lab_creds
      [Run 0, Run 1, Run 1, Run 0, Run 1, Run 1, Take 1, Take 0]
      [''10.0.0.2'', ''10.0.0.3''] (initial_shared\<lparr>visited_global := [''10.0.0.1'']\<rparr>)) = [1, 0] \<and>
   seen (run_level flaky_world lab_creds
      [Run 0, Run 1, Run 1, Run 0, Run 1, Run 1, Take 1, Take 0]
      [''10.0.0.2'', ''10.0.0.3''] (initial_shared\<lparr>visited_global := [''10.0.0.1'']\<rparr>)) =
     [(1, [''10.0.0.1'', ''10.0.0.3''])] \<and>
   raised (futures (run_level flaky_world lab_creds
      [Run 0, Run 1, Run 1, Run 0, Run 1, Run 1, Take 1, Take 0]
      [''10.0.0.2'', ''10.0.0.3''] (initial_shared\<lparr>visited_global := [''10.0.0.1'']\<rparr>)) ! 0) =
     Some (Exception ''Pattern not detected'') \<and>
   neighbors_of (futures (run_level flaky_world lab_creds
      [Run 0, Run 1, Run 1, Run 0, Run 1, Run 1, Take 1, Take 0]
      [''10.0.0.2'', ''10.0.0.3''] (initial_shared\<lparr>visited_global := [''10.0.0.1'']\<rparr>)) ! 1) =
     [''10.0.0.1'', ''10.0.0.2''] \<and>
   set (next_to_visit (run_level flaky_world lab_creds
      [Run 0, Run 1, Run 1, Run 0, Run 1, Run 1, Take 1, Take 0]
      [''10.0.0.2'', ''10.0.0.3''] (initial_shared\<lparr>visited_global := [''10.0.0.1'']\<rparr>))) =
     {''10.0.0.1'', ''10.0.0.2''} - {''10.0.0.1'', ''10.0.0.3''} \<and>
   (ERROR, ''Error in thread during discovery: Pattern not detected'') \<in>
     set (logged (shared_state (run_level flaky_world lab_creds
      [Run 0, Run 1, Run 1, Run 0, Run 1, Run 1, Take 1, Take 0]
      [''10.0.0.2'', ''10.0.0.3''] (initial_shared\<lparr>visited_global := [''10.0.0.1'']\<rparr>))))"
proof -
  let ?L = "run_level flaky_world lab_creds
      [Run 0, Run 1, Run 1, Run 0, Run 1, Run 1, Take 1, Take 0]
      [''10.0.0.2'', ''10.0.0.3''] (initial_shared\<lparr>visited_global := [''10.0.0.1'']\<rparr>)"
  note T = next_frontier [OF refl, of flaky_world lab_creds
      "[Run 0, Run 1, Run 1, Run 0, Run 1, Run 1, Take 1, Take 0]"
      "[''10.0.0.2'', ''10.0.0.3'']" "initial_shared\<lparr>visited_global := [''10.0.0.1'']\<rparr>"]
  have y: "yielded ?L = [1, 0]" by code_simp
  have s: "seen ?L = [(1, [''10.0.0.1'', ''10.0.0.3''])]" by code_simp
  have r: "raised (futures ?L ! 0) = Some (Exception ''Pattern not detected'')" by code_simp
  have n: "neighbors_of (futures ?L ! 1) = [''10.0.0.1'', ''10.0.0.2'']" by code_simp
  from r have d: "futures ?L ! 0 = Done (Inl (Exception ''Pattern not detected''))"
    by (rule raised_Some)
  have "set (next_to_visit ?L) =
      (\<Union>(i, V) \<in> set (seen ?L). set (neighbors_of (futures ?L ! i)) - set V)"
    by (rule T [THEN conjunct2, THEN conjunct2, THEN conjunct2, THEN conjunct2, THEN conjunct2,
                THEN conjunct1])
  then have nx: "set (next_to_visit ?L) = {''10.0.0.1'', ''10.0.0.2''} - {''10.0.0.1'', ''10.0.0.3''}"
    unfolding s using n by simp
  have z: "0 < length [''10.0.0.2'', ''10.0.0.3'']" by simp
  have "neighbors_of (futures ?L ! 0) = [] \<and>
      (ERROR, ''Error in thread during discovery: '' @
        str (Exception ''Pattern not detected'')) \<in> set (logged (shared_state ?L))"
    by (rule T [THEN conjunct2, THEN conjunct2, THEN conjunct2, THEN conjunct2, THEN conjunct2,
                THEN conjunct2, THEN conjunct2, THEN conjunct1, rule_format, OF z d])
  then have lg: "(ERROR, ''Error in thread during discovery: Pattern not detected'') \<in>
      set (logged (shared_state ?L))"
    by simp
  show ?thesis
    by (intro conjI y s r n nx lg)
qed

text \<open>
  A level with the frontier \<open>{10.0.0.1, 10.0.0.2}\<close>, after \<open>10.0.0.0\<close> has been visited.
  Both workers pass their membership test; the worker of \<open>10.0.0.1\<close> finishes and its
  result \<open>{10.0.0.2, 10.0.0.3}\<close> is taken while \<open>10.0.0.2\<close> is not yet visited; then the
  worker of \<open>10.0.0.2\<close> finishes and its result \<open>{10.0.0.1, 10.0.0.3}\<close> is taken. The next
  frontier is \<open>{10.0.0.2, 10.0.0.3}\<close>. It is not the union of the two results minus
  one visited set, neither the one at the end of the level, which gives \<open>{10.0.0.3}\<close>,
  nor the one at its start, which gives \<open>{10.0.0.1, 10.0.0.2, 10.0.0.3}\<close>.
\<close>

theorem frontier_no_single_visited_set:
  "next_to_visit
     (run_level lab_world lab_creds [Run 0, Run 1, Run 0, Run 0, Run 0, Take 0]
        [''10.0.0.1'', ''10.0.0.2''] (initial_shared\<lparr>visited_global := [''10.0.0.0'']\<rparr>)) =
     [''10.0.0.2'', ''10.0.0.3''] \<and>
   map neighbors_of (futures
     (run_level lab_world lab_creds [Run 0, Run 1, Run 0, Run 0, Run 0, Take 0]
        [''10.0.0.1'', ''10.0.0.2''] (initial_shared\<lparr>visited_global := [''10.0.0.0'']\<rparr>))) =
     [[''10.0.0.2'', ''10.0.0.3''], [''10.0.0.1'', ''10.0.0.3'']] \<and>
   visited_global (shared_state
     (run_level lab_world lab_creds [Run 0, Run 1, Run 0, Run 0, Run 0, Take 0]
        [''10.0.0.1'', ''10.0.0.2''] (initial_shared\<lparr>visited_global := [''10.0.0.0'']\<rparr>))) =
     [''10.0.0.0'', ''10.0.0.1'', ''10.0.0.2''] \<and>
   remdups (set_diff
     (concat (map neighbors_of (futures
        (run_level lab_world lab_creds [Run 0, Run 1, Run 0, Run 0, Run 0, Take 0]
           [''10.0.0.1'', ''10.0.0.2''] (initial_shared\<lparr>visited_global := [''10.0.0.0'']\<rparr>)))))
     (visited_global (shared_state
        (run_level lab_world lab_creds [Run 0, Run 1, Run 0, Run 0, Run 0, Take 0]
           [''10.0.0.1'', ''10.0.0.2''] (initial_shared\<lparr>visited_global := [''10.0.0.0'']\<rparr>))))) =
     [''10.0.0.3''] \<and>
   remdups (set_diff
     (concat (map neighbors_of (futures
        (run_level lab_world lab_creds [Run 0, Run 1, Run 0, Run 0, Run 0, Take 0]
           [''10.0.0.1'', ''10.0.0.2''] (initial_shared\<lparr>visited_global := [''10.0.0.0'']\<rparr>)))))
     (visited_global (initial_shared\<lparr>visited_global := [''10.0.0.0'']\<rparr>))) =
     [''10.0.0.2'', ''10.0.0.1'', ''10.0.0.3'']"
  by code_simp

end
